theory Spec2Isabelle
  imports Complex_Main "HOL-Library.AList"
begin

section \<open>Values, dictionaries and errors of the monitored program\<close>

text \<open>
  The program is a single Python module, \<^verbatim>\<open>main.py\<close>.  Its readings are Python
  numbers (ints and floats); both are modelled by \<^typ>\<open>real\<close>, so the arithmetic below is
  exact arithmetic on the reals.  A dictionary is an association list in insertion order.
\<close>

datatype val = PyNone | Num real | Str string | Bool bool | Dict "(string \<times> val) list"

type_synonym pydict = "(string \<times> val) list"

datatype error = TypeError | KeyError string

text \<open>\<^verbatim>\<open>d[k]\<close>: a missing key raises.\<close>

definition getitem :: "pydict \<Rightarrow> string \<Rightarrow> error + val" where
  "getitem d k = (case map_of d k of None \<Rightarrow> Inl (KeyError k) | Some v \<Rightarrow> Inr v)"

text \<open>\<^verbatim>\<open>d[k] = v\<close>: replaces the entry in place, or appends a new one.\<close>

definition setitem :: "pydict \<Rightarrow> string \<Rightarrow> val \<Rightarrow> pydict" where
  "setitem d k v = AList.update k v d"

text \<open>\<^verbatim>\<open>d.get(k, default)\<close>.\<close>

definition get_default :: "pydict \<Rightarrow> string \<Rightarrow> val \<Rightarrow> val" where
  "get_default d k dflt = (case map_of d k of None \<Rightarrow> dflt | Some v \<Rightarrow> v)"

text \<open>
  The operand of an arithmetic operator or of a comparison with a number: numbers and
  booleans (a Python \<^verbatim>\<open>bool\<close> is an \<^verbatim>\<open>int\<close>) are accepted, \<^verbatim>\<open>None\<close>, strings and
  dictionaries raise \<^verbatim>\<open>TypeError\<close>.
\<close>

fun as_num :: "val \<Rightarrow> error + real" where
  "as_num (Num x) = Inr x"
| "as_num (Bool b) = Inr (if b then 1 else 0)"
| "as_num PyNone = Inl TypeError"
| "as_num (Str s) = Inl TypeError"
| "as_num (Dict d) = Inl TypeError"

section \<open>Robust averaging\<close>

text \<open>
  \<^verbatim>\<open>robust_average(func, samples=5, delay=0.5, outlier_threshold=0.2)\<close>.
  The sampled function is given by the outcome of its successive calls: \<open>func i\<close> is
  \<open>Some v\<close> when call number \<open>i\<close> returns \<open>v\<close> and \<open>None\<close> when it raises (the exception is
  caught and logged).  The pause between calls has no influence on the result.
\<close>

fun sample_loop :: "(nat \<Rightarrow> real option) \<Rightarrow> nat \<Rightarrow> nat \<Rightarrow> real list \<Rightarrow> real list" where
  "sample_loop func i 0 vals = vals"
| "sample_loop func i (Suc n) vals =
     sample_loop func (Suc i) n (case func i of Some v \<Rightarrow> vals @ [v] | None \<Rightarrow> vals)"

text \<open>\<^verbatim>\<open>np.median\<close> of a non-empty list: the middle of the sorted values, or the mean of
  the two middle ones.\<close>

definition np_median :: "real list \<Rightarrow> real" where
  "np_median xs =
     (let s = sort xs; n = length s
      in if n mod 2 = 1 then s ! (n div 2) else (s ! (n div 2 - 1) + s ! (n div 2)) / 2)"

definition robust_average :: "(nat \<Rightarrow> real option) \<Rightarrow> nat \<Rightarrow> real \<Rightarrow> real option" where
  "robust_average func samples outlier_threshold =
     (let vals = sample_loop func 0 samples []
      in if vals = [] then None
         else let median_val = np_median vals
              in if median_val = 0 then Some 0
                 else let filtered = filter (\<lambda>v. \<bar>v - median_val\<bar> / \<bar>median_val\<bar> \<le> outlier_threshold) vals
                      in if filtered \<noteq> [] then Some (sum_list filtered / real (length filtered))
                         else Some median_val)"

text \<open>The successful samples of a batch, in call order, as the specification speaks of them.\<close>

definition successful_samples :: "(nat \<Rightarrow> real option) \<Rightarrow> nat \<Rightarrow> real list" where
  "successful_samples func samples = List.map_filter func [0..<samples]"

definition relative_deviation :: "real \<Rightarrow> real \<Rightarrow> real" where
  "relative_deviation m v = \<bar>v - m\<bar> / \<bar>m\<bar>"

section \<open>Baseline statistics\<close>

text \<open>
  \<^verbatim>\<open>baseline_stats\<close> maps a feature name to \<^verbatim>\<open>{"mean": m, "std": s}\<close>; every entry
  the program builds has both fields, so an entry is a record.
\<close>

record stats =
  mean :: real
  std :: real

type_synonym baseline = "(string \<times> stats) list"

definition baseline_stats_init :: baseline where
  "baseline_stats_init =
     [(''cpu_usage'', \<lparr>mean = 20, std = 5\<rparr>),
      (''memory_usage'', \<lparr>mean = 30, std = 10\<rparr>),
      (''disk_usage'', \<lparr>mean = 40, std = 10\<rparr>),
      (''modified'', \<lparr>mean = 2, std = 1\<rparr>),
      (''renamed'', \<lparr>mean = 1, std = 0.5\<rparr>),
      (''deleted'', \<lparr>mean = 1, std = 0.5\<rparr>),
      (''entropy_alerts'', \<lparr>mean = 3, std = 1\<rparr>),
      (''unauth_proc_count'', \<lparr>mean = 0, std = 0\<rparr>),
      (''shadow_copy_flag'', \<lparr>mean = 0, std = 0\<rparr>),
      (''registry_alerts_count'', \<lparr>mean = 0, std = 0\<rparr>),
      (''susp_net_count'', \<lparr>mean = 0, std = 0\<rparr>),
      (''susp_ext_count'', \<lparr>mean = 0, std = 0\<rparr>),
      (''proc_injection'', \<lparr>mean = 0, std = 0\<rparr>),
      (''sys_call_anomaly'', \<lparr>mean = 0, std = 0\<rparr>),
      (''total_net_connections'', \<lparr>mean = 50, std = 20\<rparr>)]"

text \<open>The body of the loop of \<^verbatim>\<open>update_baseline\<close> for one \<^verbatim>\<open>(key, stats)\<close> item.\<close>

definition update_stats :: "pydict \<Rightarrow> real \<Rightarrow> string \<Rightarrow> stats \<Rightarrow> error + stats" where
  "update_stats new_data alpha key st =
     (case as_num (get_default new_data key (Num (mean st))) of
        Inl e \<Rightarrow> Inl e
      | Inr new_value \<Rightarrow>
          let updated_mean = (1 - alpha) * mean st + alpha * new_value;
              updated_std = (1 - alpha) * std st + alpha * \<bar>new_value - updated_mean\<bar>
          in Inr \<lparr>mean = updated_mean, std = updated_std\<rparr>)"

fun update_baseline_loop :: "baseline \<Rightarrow> pydict \<Rightarrow> real \<Rightarrow> baseline \<Rightarrow> error + baseline" where
  "update_baseline_loop [] new_data alpha updated = Inr updated"
| "update_baseline_loop ((key, st) # items) new_data alpha updated =
     (case update_stats new_data alpha key st of
        Inl e \<Rightarrow> Inl e
      | Inr s \<Rightarrow> update_baseline_loop items new_data alpha (AList.update key s updated))"

definition update_baseline :: "baseline \<Rightarrow> pydict \<Rightarrow> real \<Rightarrow> error + baseline" where
  "update_baseline baseline new_data alpha = update_baseline_loop baseline new_data alpha []"

text \<open>The same observation fed to \<^verbatim>\<open>update_baseline\<close> for \<open>n\<close> cycles in a row.\<close>

fun update_baseline_repeatedly :: "nat \<Rightarrow> baseline \<Rightarrow> pydict \<Rightarrow> real \<Rightarrow> error + baseline" where
  "update_baseline_repeatedly 0 b new_data alpha = Inr b"
| "update_baseline_repeatedly (Suc n) b new_data alpha =
     (case update_baseline b new_data alpha of
        Inl e \<Rightarrow> Inl e
      | Inr b' \<Rightarrow> update_baseline_repeatedly n b' new_data alpha)"

section \<open>File monitoring\<close>

record FileMonitorHandler =
  modified_files :: "string set"
  renamed_files :: "string set"
  deleted_files :: "string set"

record fs_event =
  is_directory :: bool
  src_path :: string
  dest_path :: string

definition FileMonitorHandler_init :: FileMonitorHandler where
  "FileMonitorHandler_init = \<lparr>modified_files = {}, renamed_files = {}, deleted_files = {}\<rparr>"

definition on_modified :: "FileMonitorHandler \<Rightarrow> fs_event \<Rightarrow> FileMonitorHandler" where
  "on_modified self event =
     (if \<not> is_directory event
      then self\<lparr>modified_files := insert (src_path event) (modified_files self)\<rparr> else self)"

definition on_created :: "FileMonitorHandler \<Rightarrow> fs_event \<Rightarrow> FileMonitorHandler" where
  "on_created self event =
     (if \<not> is_directory event
      then self\<lparr>modified_files := insert (src_path event) (modified_files self)\<rparr> else self)"

definition on_deleted :: "FileMonitorHandler \<Rightarrow> fs_event \<Rightarrow> FileMonitorHandler" where
  "on_deleted self event =
     (if \<not> is_directory event
      then self\<lparr>deleted_files := insert (src_path event) (deleted_files self)\<rparr> else self)"

definition on_moved :: "FileMonitorHandler \<Rightarrow> fs_event \<Rightarrow> FileMonitorHandler" where
  "on_moved self event =
     (if \<not> is_directory event
      then self\<lparr>renamed_files := insert (dest_path event) (renamed_files self)\<rparr> else self)"

definition get_file_event_counts :: "FileMonitorHandler \<Rightarrow> pydict \<times> FileMonitorHandler" where
  "get_file_event_counts self =
     (let counts = [(''modified'', Num (real (card (modified_files self)))),
                    (''renamed'', Num (real (card (renamed_files self)))),
                    (''deleted'', Num (real (card (deleted_files self))))]
      in (counts, self\<lparr>modified_files := {}, renamed_files := {}, deleted_files := {}\<rparr>))"

text \<open>A file modification event on a path, as the watcher delivers it.\<close>

definition modify :: "string \<Rightarrow> fs_event" where
  "modify path = \<lparr>is_directory = False, src_path = path, dest_path = []\<rparr>"

section \<open>Program state and signal sources\<close>

text \<open>
  The globals of the module, with the effects the program has on the outside: the times
  at which \<^verbatim>\<open>block_directory(MONITOR_PATH)\<close> was called, the \<^verbatim>\<open>send_json\<close> calls
  handed to the event loop (time, client, message), the pending
  \<^verbatim>\<open>reset_response_flag\<close> timers (the time at which each one clears the flag) and the
  rows of the correlation log.  \<open>send_raises c\<close> says that handing a message for client
  \<open>c\<close> to the event loop raises; the exception is caught per client.  Time is a counter
  of time units.  Log records are not modelled.
\<close>

record state =
  baseline_stats :: baseline
  response_triggered_flag :: bool
  action_blocked :: bool
  file_monitor_handler_global :: "FileMonitorHandler option"
  connected_clients :: "nat list"
  send_raises :: "nat \<Rightarrow> bool"
  clock :: nat
  reset_timers :: "nat list"
  blocked_at :: "nat list"
  outbox :: "(nat \<times> nat \<times> val) list"
  correlation_log :: "val list list option"

text \<open>
  What the operating system answers during one cycle.  A probe that is called through
  \<^verbatim>\<open>robust_average\<close> is given by the outcomes of its successive calls.  The probes that
  catch every exception themselves (\<^verbatim>\<open>analyze_directory_entropy\<close>,
  \<^verbatim>\<open>get_registry_alerts_count\<close>) are given by the count they return.
\<close>

datatype vssadmin_outcome = Output bool | CalledProcessError

record probes =
  now_isoformat :: string
  cpu_percent :: "nat \<Rightarrow> real option"
  virtual_memory_percent :: "nat \<Rightarrow> real option"
  disk_usage_percent :: "nat \<Rightarrow> real option"
  directory_entropy_count :: nat
  unauthorized_process_count_helper :: "nat \<Rightarrow> real option"
  vssadmin_list_shadows :: vssadmin_outcome
  registry_alerts_count :: nat
  suspicious_network_count_helper :: "nat \<Rightarrow> real option"
  suspicious_file_extension_count_helper :: "nat \<Rightarrow> real option"
  net_connections_len :: "nat \<Rightarrow> nat option"

definition opt_val :: "real option \<Rightarrow> val" where
  "opt_val r = (case r of None \<Rightarrow> PyNone | Some x \<Rightarrow> Num x)"

definition get_cpu_usage :: "probes \<Rightarrow> real option" where
  "get_cpu_usage p = robust_average (cpu_percent p) 5 0.2"

definition get_memory_usage :: "probes \<Rightarrow> real option" where
  "get_memory_usage p = robust_average (virtual_memory_percent p) 5 0.2"

definition get_disk_usage :: "probes \<Rightarrow> real option" where
  "get_disk_usage p = robust_average (disk_usage_percent p) 5 0.2"

definition get_unauthorized_process_count :: "probes \<Rightarrow> real option" where
  "get_unauthorized_process_count p = robust_average (unauthorized_process_count_helper p) 5 0.2"

text \<open>\<open>Output b\<close>: the command ran and \<open>b\<close> says whether its output contains \<^verbatim>\<open>Error\<close>.\<close>

definition get_shadow_copy_flag :: "probes \<Rightarrow> real" where
  "get_shadow_copy_flag p =
     (case vssadmin_list_shadows p of
        Output has_error \<Rightarrow> (if has_error then 1 else 0)
      | CalledProcessError \<Rightarrow> 1)"

definition get_suspicious_network_count :: "probes \<Rightarrow> real option" where
  "get_suspicious_network_count p = robust_average (suspicious_network_count_helper p) 5 0.2"

definition get_total_network_connections_helper :: "probes \<Rightarrow> nat \<Rightarrow> real option" where
  "get_total_network_connections_helper p i =
     (case net_connections_len p i of Some n \<Rightarrow> Some (real n) | None \<Rightarrow> Some 0)"

definition get_total_network_connections :: "probes \<Rightarrow> real option" where
  "get_total_network_connections p = robust_average (get_total_network_connections_helper p) 5 0.2"

text \<open>The \<^verbatim>\<open>try\<close> around this call never sees an exception: \<^verbatim>\<open>robust_average\<close>
  catches those of the helper itself.\<close>

definition get_suspicious_file_extension_count :: "probes \<Rightarrow> real option" where
  "get_suspicious_file_extension_count p =
     robust_average (suspicious_file_extension_count_helper p) 3 0.2"

definition monitor_crypto_operations :: real where
  "monitor_crypto_operations = 0"

definition monitor_process_injection :: real where
  "monitor_process_injection = 0"

definition monitor_sys_call_anomaly :: real where
  "monitor_sys_call_anomaly = 0"

definition collect_system_data :: "state \<Rightarrow> probes \<Rightarrow> pydict \<times> state" where
  "collect_system_data st p =
     (let (file_events, h) =
            (case file_monitor_handler_global st of
               Some handler \<Rightarrow>
                 (fst (get_file_event_counts handler), Some (snd (get_file_event_counts handler)))
             | None \<Rightarrow>
                 ([(''modified'', Num 0), (''renamed'', Num 0), (''deleted'', Num 0)], None));
          data =
            [(''timestamp'', Str (now_isoformat p)),
             (''cpu_usage'', opt_val (get_cpu_usage p)),
             (''memory_usage'', opt_val (get_memory_usage p)),
             (''disk_usage'', opt_val (get_disk_usage p)),
             (''modified'', get_default file_events ''modified'' (Num 0)),
             (''renamed'', get_default file_events ''renamed'' (Num 0)),
             (''deleted'', get_default file_events ''deleted'' (Num 0)),
             (''entropy_alerts'', Num (real (directory_entropy_count p))),
             (''unauth_proc_count'', opt_val (get_unauthorized_process_count p)),
             (''shadow_copy_flag'', Num (get_shadow_copy_flag p)),
             (''registry_alerts_count'', Num (real (registry_alerts_count p))),
             (''susp_net_count'', opt_val (get_suspicious_network_count p)),
             (''susp_ext_count'', opt_val (get_suspicious_file_extension_count p)),
             (''proc_injection'', Num monitor_process_injection),
             (''sys_call_anomaly'', Num monitor_sys_call_anomaly),
             (''total_net_connections'', opt_val (get_total_network_connections p)),
             (''crypto_api_calls'', Num monitor_crypto_operations)]
      in (data, st\<lparr>file_monitor_handler_global := h\<rparr>))"

section \<open>Alerting and notifications\<close>

text \<open>
  \<^verbatim>\<open>notify_clients\<close> and \<^verbatim>\<open>notify_live_tracking\<close> run the same loop over
  \<^verbatim>\<open>connected_clients\<close>: each client's \<^verbatim>\<open>send_json\<close> is handed to the event loop on
  its own, inside a \<^verbatim>\<open>try\<close> that catches and logs an exception.
\<close>

fun send_loop ::
  "nat list \<Rightarrow> val \<Rightarrow> (nat \<Rightarrow> bool) \<Rightarrow> nat \<Rightarrow> (nat \<times> nat \<times> val) list \<Rightarrow> (nat \<times> nat \<times> val) list" where
  "send_loop [] message raises t out = out"
| "send_loop (client # clients) message raises t out =
     send_loop clients message raises t
       (if raises client then out else out @ [(t, client, message)])"

definition notify_clients :: "val \<Rightarrow> state \<Rightarrow> state" where
  "notify_clients alert_message st =
     st\<lparr>outbox := send_loop (connected_clients st) alert_message (send_raises st) (clock st) (outbox st)\<rparr>"

definition alert_text :: string where
  "alert_text = ''Potential ransomware activity detected! Immediate action is recommended to be safe. All further actions are blocked.''"

definition alert_message :: "pydict \<Rightarrow> val" where
  "alert_message data = Dict [(''type'', Str ''alert''), (''alert'', Str alert_text), (''data'', Dict data)]"

text \<open>
  \<^verbatim>\<open>trigger_response\<close>.  \<^verbatim>\<open>block_directory\<close> catches its own exceptions, so the call
  is recorded and nothing else depends on it.  The alert carries the data dictionary as
  it is at the time of the call.
\<close>

definition trigger_response :: "pydict \<Rightarrow> state \<Rightarrow> state" where
  "trigger_response data st =
     (if \<not> response_triggered_flag st
      then let st1 = st\<lparr>response_triggered_flag := True\<rparr>;
               st2 = st1\<lparr>action_blocked := True\<rparr>;
               st3 = st2\<lparr>blocked_at := blocked_at st2 @ [clock st2]\<rparr>;
               st4 = notify_clients (alert_message data) st3
           in st4\<lparr>reset_timers := reset_timers st4 @ [clock st4 + 60]\<rparr>
      else st)"

text \<open>
  One time unit passes: every \<^verbatim>\<open>reset_response_flag\<close> whose sleep is over clears the
  flag and is finished.
\<close>

definition elapse :: "state \<Rightarrow> state" where
  "elapse st =
     (let t = clock st + 1;
          due = filter (\<lambda>d. d \<le> t) (reset_timers st)
      in st\<lparr>clock := t,
            reset_timers := filter (\<lambda>d. \<not> d \<le> t) (reset_timers st),
            response_triggered_flag := (if due = [] then response_triggered_flag st else False)\<rparr>)"

datatype signal = Anomaly pydict | Elapse

fun run :: "state \<Rightarrow> signal list \<Rightarrow> state" where
  "run st [] = st"
| "run st (Anomaly data # sigs) = run (trigger_response data st) sigs"
| "run st (Elapse # sigs) = run (elapse st) sigs"

definition is_alert :: "val \<Rightarrow> bool" where
  "is_alert m = (case m of Dict d \<Rightarrow> map_of d ''type'' = Some (Str ''alert'') | _ \<Rightarrow> False)"

text \<open>The times at which an alert was handed over for client \<open>c\<close>.\<close>

definition alert_times :: "nat \<Rightarrow> state \<Rightarrow> nat list" where
  "alert_times c st = map fst (filter (\<lambda>(t, c', m). c' = c \<and> is_alert m) (outbox st))"

text \<open>The number of entries of a log that fall into the window of 60 time units from \<open>t\<close>.\<close>

definition in_window :: "nat \<Rightarrow> nat list \<Rightarrow> nat" where
  "in_window t ts = length (filter (\<lambda>x. t \<le> x \<and> x < t + 60) ts)"

section \<open>Detection\<close>

definition watch_keys :: "string list" where
  "watch_keys = [''memory_usage'', ''disk_usage'', ''modified'', ''entropy_alerts'']"

text \<open>\<^verbatim>\<open>baseline_stats.get(key, {}).get("mean", 1)\<close>.\<close>

definition base_mean_of :: "baseline \<Rightarrow> string \<Rightarrow> real" where
  "base_mean_of b key = (case map_of b key of None \<Rightarrow> 1 | Some s \<Rightarrow> mean s)"

text \<open>
  \<^verbatim>\<open>base_mean > 0 and abs(data[key] - base_mean) / base_mean > 0.85\<close>:
  the data is read only when the first conjunct holds.
\<close>

definition deviated :: "baseline \<Rightarrow> pydict \<Rightarrow> string \<Rightarrow> error + bool" where
  "deviated b data key =
     (let base_mean = base_mean_of b key
      in if base_mean > 0
         then (case getitem data key of
                 Inl e \<Rightarrow> Inl e
               | Inr v \<Rightarrow>
                   (case as_num v of
                      Inl e \<Rightarrow> Inl e
                    | Inr x \<Rightarrow> Inr (\<bar>x - base_mean\<bar> / base_mean > 0.85)))
         else Inr False)"

text \<open>\<^verbatim>\<open>data[key] >= 30\<close>.\<close>

definition at_least_30 :: "pydict \<Rightarrow> string \<Rightarrow> error + bool" where
  "at_least_30 data key =
     (case getitem data key of
        Inl e \<Rightarrow> Inl e
      | Inr v \<Rightarrow> (case as_num v of Inl e \<Rightarrow> Inl e | Inr x \<Rightarrow> Inr (x \<ge> 30)))"

text \<open>\<^verbatim>\<open>data["modified"] >= 30 or data["renamed"] >= 30 or data["deleted"] >= 30\<close>,
  evaluated from the left and stopping at the first true operand.\<close>

definition file_event_threshold :: "pydict \<Rightarrow> error + bool" where
  "file_event_threshold data =
     (case at_least_30 data ''modified'' of
        Inl e \<Rightarrow> Inl e
      | Inr m \<Rightarrow>
          if m then Inr True
          else (case at_least_30 data ''renamed'' of
                  Inl e \<Rightarrow> Inl e
                | Inr r \<Rightarrow> if r then Inr True else at_least_30 data ''deleted''))"

text \<open>The loop of \<^verbatim>\<open>check_and_trigger_early_alert\<close>: \<open>True\<close> when it triggers and returns.\<close>

fun early_alert_loop :: "string list \<Rightarrow> baseline \<Rightarrow> pydict \<Rightarrow> error + bool" where
  "early_alert_loop [] b data = Inr False"
| "early_alert_loop (key # keys) b data =
     (case deviated b data key of
        Inl e \<Rightarrow> Inl e
      | Inr c \<Rightarrow> if c then Inr True else early_alert_loop keys b data)"

text \<open>Whether \<^verbatim>\<open>check_and_trigger_early_alert\<close> calls \<^verbatim>\<open>trigger_response\<close>.\<close>

definition early_alert_fires :: "baseline \<Rightarrow> pydict \<Rightarrow> error + bool" where
  "early_alert_fires b data =
     (case early_alert_loop watch_keys b data of
        Inl e \<Rightarrow> Inl e
      | Inr returned \<Rightarrow> if returned then Inr True else file_event_threshold data)"

definition check_and_trigger_early_alert :: "pydict \<Rightarrow> state \<Rightarrow> error + state" where
  "check_and_trigger_early_alert data st =
     (case early_alert_fires (baseline_stats st) data of
        Inl e \<Rightarrow> Inl e
      | Inr fires \<Rightarrow> Inr (if fires then trigger_response data st else st))"

text \<open>The loop of \<^verbatim>\<open>collect_and_predict\<close> that sets \<^verbatim>\<open>sudden_anomaly\<close> and breaks.\<close>

fun sudden_anomaly_loop :: "string list \<Rightarrow> baseline \<Rightarrow> pydict \<Rightarrow> bool \<Rightarrow> error + bool" where
  "sudden_anomaly_loop [] b data sudden_anomaly = Inr sudden_anomaly"
| "sudden_anomaly_loop (key # keys) b data sudden_anomaly =
     (case deviated b data key of
        Inl e \<Rightarrow> Inl e
      | Inr c \<Rightarrow> if c then Inr True else sudden_anomaly_loop keys b data sudden_anomaly)"

definition sudden_anomaly :: "baseline \<Rightarrow> pydict \<Rightarrow> error + bool" where
  "sudden_anomaly b data =
     (case sudden_anomaly_loop watch_keys b data False of
        Inl e \<Rightarrow> Inl e
      | Inr sa \<Rightarrow>
          (case file_event_threshold data of
             Inl e \<Rightarrow> Inl e
           | Inr exceeded \<Rightarrow> Inr (if exceeded then True else sa)))"

section \<open>The detection cycle\<close>

definition feature_keys :: "string list" where
  "feature_keys =
     [''memory_usage'', ''disk_usage'', ''modified'', ''renamed'', ''deleted'',
      ''entropy_alerts'', ''unauth_proc_count'', ''shadow_copy_flag'',
      ''registry_alerts_count'', ''susp_net_count'', ''susp_ext_count'',
      ''proc_injection'', ''sys_call_anomaly'', ''total_net_connections'']"

fun getitems :: "pydict \<Rightarrow> string list \<Rightarrow> error + val list" where
  "getitems data [] = Inr []"
| "getitems data (key # keys) =
     (case getitem data key of
        Inl e \<Rightarrow> Inl e
      | Inr v \<Rightarrow> (case getitems data keys of Inl e \<Rightarrow> Inl e | Inr vs \<Rightarrow> Inr (v # vs)))"

definition collect_and_predict :: "state \<Rightarrow> probes \<Rightarrow> error + pydict \<times> state" where
  "collect_and_predict st p =
     (let (data, st0) = collect_system_data st p
      in case check_and_trigger_early_alert data st0 of
           Inl e \<Rightarrow> Inl e
         | Inr st1 \<Rightarrow>
        (case getitems data feature_keys of
           Inl e \<Rightarrow> Inl e
         | Inr features \<Rightarrow>
        (case sudden_anomaly (baseline_stats st1) data of
           Inl e \<Rightarrow> Inl e
         | Inr sa \<Rightarrow>
        (let detection = (if sa then 1 else 0 :: nat);
             data1 = setitem data ''ml_detection'' (Num (real detection));
             data2 = setitem data1 ''state''
                       (Str (if detection = 1 then ''ransomware detected'' else ''normal''));
             data3 = setitem data2 ''ml_model_dedicated'' (Bool (detection = 1));
             st2 = (if detection = 1 then trigger_response data3 st1 else st1);
             data4 = setitem data3 ''response_triggered'' (Bool (detection = 1))
         in case update_baseline (baseline_stats st2) data4 0.1 of
              Inl e \<Rightarrow> Inl e
            | Inr updated \<Rightarrow>
           (case getitems data4 feature_keys of
              Inl e \<Rightarrow> Inl e
            | Inr vs \<Rightarrow>
                Inr (setitem data4 ''features'' (Dict (zip feature_keys vs)),
                     st2\<lparr>baseline_stats := updated\<rparr>))))))"

definition correlation_columns :: "string list" where
  "correlation_columns =
     [''timestamp'', ''cpu_usage'', ''memory_usage'', ''disk_usage'',
      ''modified'', ''renamed'', ''deleted'', ''entropy_alerts'',
      ''unauth_proc_count'', ''shadow_copy_flag'', ''registry_alerts_count'',
      ''susp_net_count'', ''susp_ext_count'', ''proc_injection'', ''sys_call_anomaly'',
      ''total_net_connections'', ''ml_detection'', ''state'', ''response_triggered'']"

definition correlation_engine :: "pydict \<Rightarrow> state \<Rightarrow> state" where
  "correlation_engine data st =
     (let row = map (\<lambda>k. get_default data k PyNone) correlation_columns
      in st\<lparr>correlation_log :=
              (case correlation_log st of
                 None \<Rightarrow> Some [map Str correlation_columns, row]
               | Some rows \<Rightarrow> Some (rows @ [row]))\<rparr>)"

definition live_tracking_message :: "val \<Rightarrow> val" where
  "live_tracking_message features = Dict [(''type'', Str ''live_tracking''), (''data'', features)]"

definition notify_live_tracking :: "pydict \<Rightarrow> state \<Rightarrow> error + state" where
  "notify_live_tracking data st =
     (case getitem data ''features'' of
        Inl e \<Rightarrow> Inl e
      | Inr features \<Rightarrow>
          Inr (st\<lparr>outbox := send_loop (connected_clients st) (live_tracking_message features)
                               (send_raises st) (clock st) (outbox st)\<rparr>))"

text \<open>One iteration of the loop of \<^verbatim>\<open>periodic_display_with_baseline\<close>, up to its sleep.\<close>

definition periodic_display_step :: "state \<Rightarrow> probes \<Rightarrow> error + pydict \<times> state" where
  "periodic_display_step st p =
     (case collect_and_predict st p of
        Inl e \<Rightarrow> Inl e
      | Inr (data, st1) \<Rightarrow>
          (case notify_live_tracking data (correlation_engine data st1) of
             Inl e \<Rightarrow> Inl e
           | Inr st2 \<Rightarrow> Inr (data, st2)))"

text \<open>The handler of \<^verbatim>\<open>GET /system_data\<close>.\<close>

definition get_system_data :: "state \<Rightarrow> probes \<Rightarrow> error + pydict \<times> state" where
  "get_system_data st p =
     (case collect_and_predict st p of
        Inl e \<Rightarrow> Inl e
      | Inr (data, st1) \<Rightarrow>
          Inr ([(''status'', get_default data ''state'' PyNone),
                (''ml_model_dedicated'', get_default data ''ml_model_dedicated'' PyNone),
                (''data'', Dict data)], st1))"

section \<open>The detection rules as the specification states them\<close>

text \<open>The numeric reading of a feature in a data dictionary, if it has one.\<close>

definition reading :: "pydict \<Rightarrow> string \<Rightarrow> real option" where
  "reading data key =
     (case map_of data key of
        None \<Rightarrow> None
      | Some v \<Rightarrow> (case as_num v of Inl e \<Rightarrow> None | Inr x \<Rightarrow> Some x))"

text \<open>Relative-deviation rule for one feature: skipped when the baseline mean is not
  positive, firing when \<open>\<bar>value - mean\<bar> / mean\<close> exceeds 0.85.\<close>

definition relative_rule_fires :: "baseline \<Rightarrow> pydict \<Rightarrow> string \<Rightarrow> bool" where
  "relative_rule_fires b data key =
     (case reading data key of
        None \<Rightarrow> False
      | Some x \<Rightarrow> base_mean_of b key > 0 \<and> \<bar>x - base_mean_of b key\<bar> / base_mean_of b key > 0.85)"

text \<open>Absolute file-event rule: \<open>modified \<ge> 30\<close> or \<open>renamed \<ge> 30\<close> or \<open>deleted \<ge> 30\<close>.\<close>

definition absolute_rule_fires :: "pydict \<Rightarrow> bool" where
  "absolute_rule_fires data =
     (\<exists>key \<in> {''modified'', ''renamed'', ''deleted''}.
        case reading data key of None \<Rightarrow> False | Some x \<Rightarrow> x \<ge> 30)"

definition spec_anomalous :: "baseline \<Rightarrow> pydict \<Rightarrow> bool" where
  "spec_anomalous b data =
     ((\<exists>key \<in> {''memory_usage'', ''disk_usage'', ''modified'', ''entropy_alerts''}.
         relative_rule_fires b data key)
      \<or> absolute_rule_fires data)"

text \<open>The six features the detector reads.\<close>

definition detector_keys :: "string set" where
  "detector_keys = {''memory_usage'', ''disk_usage'', ''modified'', ''entropy_alerts'', ''renamed'', ''deleted''}"

text \<open>The data dictionary after \<^verbatim>\<open>collect_and_predict\<close> has written the detection
  \<open>a\<close> into it: first the three fields set before the response, then
  \<^verbatim>\<open>response_triggered\<close>.\<close>

definition with_detection :: "pydict \<Rightarrow> bool \<Rightarrow> pydict" where
  "with_detection data a =
     setitem (setitem (setitem data ''ml_detection'' (Num (if a then 1 else 0)))
                ''state'' (Str (if a then ''ransomware detected'' else ''normal'')))
       ''ml_model_dedicated'' (Bool a)"

definition with_response :: "pydict \<Rightarrow> bool \<Rightarrow> pydict" where
  "with_response data a = setitem (with_detection data a) ''response_triggered'' (Bool a)"

section \<open>Concrete states and readings\<close>

text \<open>The globals as the module initialises them.\<close>

definition state_init :: state where
  "state_init =
     \<lparr>baseline_stats = baseline_stats_init,
      response_triggered_flag = False,
      action_blocked = False,
      file_monitor_handler_global = None,
      connected_clients = [],
      send_raises = (\<lambda>c. False),
      clock = 0,
      reset_timers = [],
      blocked_at = [],
      outbox = [],
      correlation_log = None\<rparr>"

text \<open>A running server: the file monitor has seen two modified files and one renamed
  file, and three clients are connected, of which the second cannot be sent to.\<close>

definition state_running :: state where
  "state_running =
     state_init
       \<lparr>file_monitor_handler_global :=
          Some \<lparr>modified_files = {''a.txt'', ''b.txt''}, renamed_files = {''c.txt''},
                deleted_files = {}\<rparr>,
        connected_clients := [1, 2, 3],
        send_raises := (\<lambda>c. c = 2)\<rparr>"

text \<open>Readings at the seed values of the baseline.\<close>

definition steady_probes :: probes where
  "steady_probes =
     \<lparr>now_isoformat = ''2025-01-01T00:00:00'',
      cpu_percent = (\<lambda>i. Some 20),
      virtual_memory_percent = (\<lambda>i. Some 30),
      disk_usage_percent = (\<lambda>i. Some 40),
      directory_entropy_count = 3,
      unauthorized_process_count_helper = (\<lambda>i. Some 0),
      vssadmin_list_shadows = Output False,
      registry_alerts_count = 0,
      suspicious_network_count_helper = (\<lambda>i. Some 0),
      suspicious_file_extension_count_helper = (\<lambda>i. Some 0),
      net_connections_len = (\<lambda>i. Some 50)\<rparr>"

text \<open>The same readings with memory at 60 percent, and with every memory sample failing.\<close>

definition memory_spike_probes :: probes where
  "memory_spike_probes = steady_probes\<lparr>virtual_memory_percent := (\<lambda>i. Some 60)\<rparr>"

definition memory_failing_probes :: probes where
  "memory_failing_probes = steady_probes\<lparr>virtual_memory_percent := (\<lambda>i. None)\<rparr>"

section \<open>The debounce invariant\<close>

text \<open>
  What holds of the alert state after any sequence of anomaly signals and elapsed time
  units, for a fixed list \<open>cs\<close> of connected clients and a fixed \<open>r\<close> telling whose sends
  raise: the blocks lie in the past and are at least 60 units apart; while the flag is set
  exactly one reset is pending, 60 units after the last block and still in the future;
  while it is clear no reset is pending and the last block is at least 60 units old; and
  each client that can be sent to has received one alert per block.
\<close>

definition debounce_inv :: "nat list \<Rightarrow> (nat \<Rightarrow> bool) \<Rightarrow> state \<Rightarrow> bool" where
  "debounce_inv cs r st =
     (connected_clients st = cs \<and> send_raises st = r
      \<and> (\<forall>x\<in>set (blocked_at st). x \<le> clock st)
      \<and> sorted_wrt (\<lambda>x y. x + 60 \<le> y) (blocked_at st)
      \<and> (if response_triggered_flag st
          then blocked_at st \<noteq> [] \<and> reset_timers st = [last (blocked_at st) + 60]
               \<and> clock st < last (blocked_at st) + 60
          else reset_timers st = [] \<and> (\<forall>x\<in>set (blocked_at st). x + 60 \<le> clock st))
      \<and> (\<forall>c. alert_times c st = (if c \<in> set cs \<and> \<not> r c then blocked_at st else [])))"

text \<open>Two anomaly signals one time unit apart, the rest of the 60 units, and a third
  anomaly signal.\<close>

definition debounce_signals :: "signal list" where
  "debounce_signals = [Anomaly [], Elapse, Anomaly []] @ replicate 59 Elapse @ [Anomaly []]"

section \<open>Properties\<close>

lemma sample_loop_eq:
  "sample_loop func i n vals = vals @ List.map_filter func [i..<i + n]"
proof (induction n arbitrary: i vals)
  case 0
  show ?case by (simp add: List.map_filter_simps)
next
  case (Suc n)
  have "[i..<i + Suc n] = i # [Suc i..<Suc i + n]"
    by (simp add: upt_conv_Cons)
  then show ?case
    using Suc.IH [of "Suc i"] by (simp add: List.map_filter_simps split: option.splits)
qed

lemma sample_loop_successful:
  "sample_loop func 0 samples [] = successful_samples func samples"
  by (simp add: sample_loop_eq successful_samples_def)

lemma sort_replicate_real: "sort (replicate k (c::real)) = replicate k c"
  by (rule sorted_sort_id) (simp add: sorted_replicate)

lemma np_median_replicate: "0 < k \<Longrightarrow> np_median (replicate k c) = c"
proof -
  assume k: "0 < k"
  have a: "k div 2 < k" using k by simp
  have b: "k div 2 - 1 < k" using k by arith
  show ?thesis
    using a b by (simp add: np_median_def sort_replicate_real Let_def)
qed

lemma map_filter_const:
  "\<forall>i\<in>set xs. f i = Some c \<or> f i = None \<Longrightarrow> \<exists>k. List.map_filter f xs = replicate k c"
proof (induction xs)
  case Nil
  show ?case by (simp add: List.map_filter_simps)
next
  case (Cons x xs)
  then obtain k where k: "List.map_filter f xs = replicate k c" by auto
  from Cons.prems have "f x = Some c \<or> f x = None" by simp
  then show ?case
  proof
    assume "f x = Some c"
    then have "List.map_filter f (x # xs) = replicate (Suc k) c"
      by (simp add: List.map_filter_simps k)
    then show ?thesis by blast
  next
    assume "f x = None"
    then have "List.map_filter f (x # xs) = replicate k c"
      by (simp add: List.map_filter_simps k)
    then show ?thesis by blast
  qed
qed

lemma robust_average_unfold:
  "robust_average func samples thr =
     (let vals = successful_samples func samples
      in if vals = [] then None
         else if np_median vals = 0 then Some 0
         else let kept = filter (\<lambda>v. relative_deviation (np_median vals) v \<le> thr) vals
              in if kept = [] then Some (np_median vals)
                 else Some (sum_list kept / real (length kept)))"
  by (simp add: robust_average_def sample_loop_successful relative_deviation_def Let_def)

lemma robust_average_replicate:
  assumes "0 < k" "successful_samples func samples = replicate k c"
  shows "robust_average func samples thr = Some c"
proof -
  have m: "np_median (replicate k c) = c" using assms(1) by (rule np_median_replicate)
  have ne: "replicate k c \<noteq> []" using assms(1) by simp
  show ?thesis
  proof (cases "c = 0")
    case True
    then show ?thesis using ne m by (simp add: robust_average_unfold assms(2))
  next
    case False
    show ?thesis
    proof (cases "0 \<le> thr")
      case True
      then have "filter (\<lambda>v. relative_deviation c v \<le> thr) (replicate k c) = replicate k c"
        by (simp add: relative_deviation_def)
      moreover have "sum_list (replicate k c) / real k = c"
        using assms(1) by (simp add: sum_list_replicate)
      ultimately show ?thesis
        using ne m False by (simp add: robust_average_unfold assms(2) Let_def)
    next
      case False
      then have "filter (\<lambda>v. relative_deviation c v \<le> thr) (replicate k c) = []"
        by (simp add: relative_deviation_def)
      then show ?thesis
        using ne m \<open>c \<noteq> 0\<close> by (simp add: robust_average_unfold assms(2) Let_def)
    qed
  qed
qed

lemma robust_average_constant:
  assumes some: "\<exists>i<samples. func i = Some c"
    and all: "\<forall>i<samples. func i = Some c \<or> func i = None"
  shows "robust_average func samples thr = Some c"
proof -
  from all have "\<forall>i\<in>set [0..<samples]. func i = Some c \<or> func i = None" by simp
  then have "\<exists>k. List.map_filter func [0..<samples] = replicate k c"
    by (rule map_filter_const)
  then obtain k where k: "successful_samples func samples = replicate k c"
    unfolding successful_samples_def by blast
  from some obtain i where i: "i < samples" "func i = Some c" by blast
  have "i \<in> set [0..<samples]" using i(1) by simp
  then have "c \<in> set (List.map_filter func [0..<samples])"
    using i(2) by (force simp: List.map_filter_def)
  then have "c \<in> set (replicate k c)"
    using k by (simp add: successful_samples_def)
  then have "0 < k" by (cases k) simp_all
  then show ?thesis using k by (rule robust_average_replicate)
qed

lemma robust_average_outlier_example:
  "robust_average (\<lambda>i. Some ([10, 10, 10, 10, 1000] ! i)) 5 0.2 = Some 10"
  by code_simp

text \<open>
  Claim C4.  A batch in which no call succeeded yields no data (\<open>None\<close>).  Otherwise the
  result is 0 when the median of the successful samples is exactly 0, and else the
  arithmetic mean of the samples whose relative deviation from the median is at most the
  outlier threshold, or the median itself when no sample passes that filter.  Hence a
  source that returns the constant \<open>c\<close> whenever it succeeds, and succeeds at least once,
  yields \<open>c\<close>, and the samples 10, 10, 10, 10, 1000 with threshold 0.2 yield 10.
\<close>

theorem robust_average_contract:
  "robust_average func samples thr =
     (let vals = successful_samples func samples
      in if vals = [] then None
         else if np_median vals = 0 then Some 0
         else let kept = filter (\<lambda>v. relative_deviation (np_median vals) v \<le> thr) vals
              in if kept = [] then Some (np_median vals)
                 else Some (sum_list kept / real (length kept)))
   \<and> ((\<exists>i<samples. func i = Some c) \<and> (\<forall>i<samples. func i = Some c \<or> func i = None)
        \<longrightarrow> robust_average func samples thr = Some c)
   \<and> robust_average (\<lambda>i. Some ([10, 10, 10, 10, 1000] ! i)) 5 0.2 = Some 10"
proof (intro conjI impI)
  show "robust_average func samples thr =
     (let vals = successful_samples func samples
      in if vals = [] then None
         else if np_median vals = 0 then Some 0
         else let kept = filter (\<lambda>v. relative_deviation (np_median vals) v \<le> thr) vals
              in if kept = [] then Some (np_median vals)
                 else Some (sum_list kept / real (length kept)))"
    by (rule robust_average_unfold)
next
  assume h: "(\<exists>i<samples. func i = Some c) \<and> (\<forall>i<samples. func i = Some c \<or> func i = None)"
  show "robust_average func samples thr = Some c"
    by (rule robust_average_constant [OF conjunct1 [OF h] conjunct2 [OF h]])
next
  show "robust_average (\<lambda>i. Some ([10, 10, 10, 10, 1000] ! i)) 5 0.2 = Some 10"
    by (rule robust_average_outlier_example)
qed

theorem robust_average_contract_witness:
  "robust_average (\<lambda>i. Some 7) 5 0.2 = Some 7
   \<and> robust_average (\<lambda>i. if i = 2 then Some 7 else None) 5 0.2 = Some 7"
proof -
  have a1: "\<exists>i<5::nat. (\<lambda>i. Some (7::real)) i = Some 7"
    by (rule exI [of _ 0]) simp
  have a2: "\<forall>i<5::nat. (\<lambda>i. Some (7::real)) i = Some 7 \<or> (\<lambda>i. Some (7::real)) i = None"
    by simp
  have a: "robust_average (\<lambda>i. Some 7) 5 0.2 = Some 7"
    by (rule mp [OF robust_average_contract [of "\<lambda>i. Some 7" 5 "0.2" 7, THEN conjunct2, THEN conjunct1]
      conjI [OF a1 a2]])
  have b1: "\<exists>i<5::nat. (\<lambda>i. if i = 2 then Some (7::real) else None) i = Some 7"
    by (rule exI [of _ 2]) simp
  have b2: "\<forall>i<5::nat. (\<lambda>i. if i = 2 then Some (7::real) else None) i = Some 7
      \<or> (\<lambda>i. if i = 2 then Some (7::real) else None) i = None"
    by simp
  have b: "robust_average (\<lambda>i. if i = 2 then Some 7 else None) 5 0.2 = Some 7"
    by (rule mp [OF robust_average_contract [of "\<lambda>i. if i = 2 then Some 7 else None" 5 "0.2" 7,
        THEN conjunct2, THEN conjunct1] conjI [OF b1 b2]])
  show ?thesis using a b by (rule conjI)
qed

lemma foldl_on_modified:
  "modified_files (foldl on_modified h es) =
     modified_files h \<union> src_path ` {e \<in> set es. \<not> is_directory e}"
  by (induction es arbitrary: h) (auto simp: on_modified_def)

lemma foldl_on_modified_others:
  "renamed_files (foldl on_modified h es) = renamed_files h
   \<and> deleted_files (foldl on_modified h es) = deleted_files h"
  by (induction es arbitrary: h) (auto simp: on_modified_def)

lemma record_twice:
  "on_modified (on_modified h e) e = on_modified h e
   \<and> on_created (on_created h e) e = on_created h e
   \<and> on_deleted (on_deleted h e) e = on_deleted h e
   \<and> on_moved (on_moved h e) e = on_moved h e"
  by (simp add: on_modified_def on_created_def on_deleted_def on_moved_def)

lemma drain_counts:
  "fst (get_file_event_counts h) =
     [(''modified'', Num (real (card (modified_files h)))),
      (''renamed'', Num (real (card (renamed_files h)))),
      (''deleted'', Num (real (card (deleted_files h))))]"
  by (simp add: get_file_event_counts_def)

lemma drain_resets:
  "snd (get_file_event_counts h) = FileMonitorHandler_init"
  by (simp add: get_file_event_counts_def FileMonitorHandler_init_def)

lemma drain_init:
  "fst (get_file_event_counts FileMonitorHandler_init) =
     [(''modified'', Num 0), (''renamed'', Num 0), (''deleted'', Num 0)]"
  by (simp add: get_file_event_counts_def FileMonitorHandler_init_def)

lemma drain_example:
  "A \<noteq> B \<Longrightarrow>
   fst (get_file_event_counts
         (on_modified (on_modified (on_modified FileMonitorHandler_init (modify A)) (modify A))
            (modify B))) =
     [(''modified'', Num 2), (''renamed'', Num 0), (''deleted'', Num 0)]"
  by (simp add: get_file_event_counts_def FileMonitorHandler_init_def on_modified_def modify_def)

text \<open>
  Claim C6.  The change accumulator keeps sets of paths: \<^verbatim>\<open>get_file_event_counts\<close>
  returns the sizes of the three sets and leaves all three empty, so a second drain right
  after it returns zeros.  Recording an event a second time changes nothing, the modified
  set after a run of modification events is the set of the paths of the non-directory
  events, and modify(A), modify(A), modify(B) with two different paths drains to
  \<open>modified = 2\<close>.
\<close>

theorem change_accumulator_drain:
  "fst (get_file_event_counts h) =
     [(''modified'', Num (real (card (modified_files h)))),
      (''renamed'', Num (real (card (renamed_files h)))),
      (''deleted'', Num (real (card (deleted_files h))))]
   \<and> snd (get_file_event_counts h) = FileMonitorHandler_init
   \<and> fst (get_file_event_counts (snd (get_file_event_counts h))) =
       [(''modified'', Num 0), (''renamed'', Num 0), (''deleted'', Num 0)]
   \<and> on_modified (on_modified h e) e = on_modified h e
   \<and> on_created (on_created h e) e = on_created h e
   \<and> on_deleted (on_deleted h e) e = on_deleted h e
   \<and> on_moved (on_moved h e) e = on_moved h e
   \<and> modified_files (foldl on_modified FileMonitorHandler_init es) =
       src_path ` {e \<in> set es. \<not> is_directory e}
   \<and> (A \<noteq> B \<longrightarrow>
       fst (get_file_event_counts
             (on_modified (on_modified (on_modified FileMonitorHandler_init (modify A)) (modify A))
                (modify B))) =
         [(''modified'', Num 2), (''renamed'', Num 0), (''deleted'', Num 0)])"
proof -
  have a: "modified_files (foldl on_modified FileMonitorHandler_init es) =
       src_path ` {e \<in> set es. \<not> is_directory e}"
    by (simp add: foldl_on_modified FileMonitorHandler_init_def)
  show ?thesis
    using drain_counts [of h] drain_resets [of h] drain_init record_twice [of h e] a
      drain_example [of A B]
    by simp
qed

theorem change_accumulator_drain_witness:
  "''A'' \<noteq> ''B'' \<and>
   fst (get_file_event_counts
         (on_modified (on_modified (on_modified FileMonitorHandler_init (modify ''A'')) (modify ''A''))
            (modify ''B''))) =
     [(''modified'', Num 2), (''renamed'', Num 0), (''deleted'', Num 0)]"
proof -
  have ne: "''A'' \<noteq> ''B''" by simp
  note t = change_accumulator_drain [of FileMonitorHandler_init "modify ''A''" "[]" "''A''" "''B''"]
  have "''A'' \<noteq> ''B'' \<longrightarrow>
       fst (get_file_event_counts
             (on_modified (on_modified (on_modified FileMonitorHandler_init (modify ''A'')) (modify ''A''))
                (modify ''B''))) =
         [(''modified'', Num 2), (''renamed'', Num 0), (''deleted'', Num 0)]"
    using t by blast
  then show ?thesis using ne by blast
qed

lemma update_baseline_loop_map_of:
  "update_baseline_loop items d \<alpha> upd = Inr b' \<Longrightarrow> distinct (map fst items) \<Longrightarrow>
   map_of b' k =
     (case map_of items k of
        None \<Rightarrow> map_of upd k
      | Some s \<Rightarrow> (case update_stats d \<alpha> k s of Inl e \<Rightarrow> None | Inr s' \<Rightarrow> Some s'))"
proof (induction items arbitrary: upd)
  case Nil
  then show ?case by simp
next
  case (Cons item items)
  obtain key st where item: "item = (key, st)" by (cases item)
  from Cons.prems(1) item obtain s0 where
    s0: "update_stats d \<alpha> key st = Inr s0"
    and rest: "update_baseline_loop items d \<alpha> (AList.update key s0 upd) = Inr b'"
    by (auto split: sum.splits)
  from Cons.prems(2) item have dist: "distinct (map fst items)" and notin: "key \<notin> fst ` set items"
    by auto
  note ih = Cons.IH [OF rest dist]
  show ?case
  proof (cases "k = key")
    case True
    have "map_of items key = None" using notin by (simp add: map_of_eq_None_iff)
    then show ?thesis using ih True item s0 by (simp add: update_conv')
  next
    case False
    then show ?thesis using ih item by (simp add: update_conv' split: option.splits)
  qed
qed

lemma update_baseline_loop_ok:
  "update_baseline_loop items d \<alpha> upd = Inr b' \<Longrightarrow> (key, st) \<in> set items \<Longrightarrow>
   \<exists>s'. update_stats d \<alpha> key st = Inr s'"
proof (induction items arbitrary: upd)
  case Nil
  then show ?case by simp
next
  case (Cons item items)
  obtain key0 st0 where item: "item = (key0, st0)" by (cases item)
  from Cons.prems(1) item obtain s0 where
    s0: "update_stats d \<alpha> key0 st0 = Inr s0"
    and rest: "update_baseline_loop items d \<alpha> (AList.update key0 s0 upd) = Inr b'"
    by (auto split: sum.splits)
  show ?case
  proof (cases "(key, st) = item")
    case True
    then show ?thesis using item s0 by auto
  next
    case False
    then have "(key, st) \<in> set items" using Cons.prems(2) by simp
    then show ?thesis using Cons.IH [OF rest] by blast
  qed
qed

lemma update_stats_Inr:
  "update_stats d \<alpha> k s = Inr s' \<Longrightarrow>
   \<exists>v. as_num (get_default d k (Num (mean s))) = Inr v
     \<and> mean s' = (1 - \<alpha>) * mean s + \<alpha> * v
     \<and> std s' = (1 - \<alpha>) * std s + \<alpha> * \<bar>v - mean s'\<bar>"
  by (auto simp: update_stats_def Let_def split: sum.splits)

lemma update_baseline_entry:
  assumes "distinct (map fst b)" "map_of b k = Some s" "update_baseline b d \<alpha> = Inr b'"
  shows "\<exists>v s'. as_num (get_default d k (Num (mean s))) = Inr v
     \<and> map_of b' k = Some s'
     \<and> mean s' = (1 - \<alpha>) * mean s + \<alpha> * v
     \<and> std s' = (1 - \<alpha>) * std s + \<alpha> * \<bar>v - mean s'\<bar>"
proof -
  from assms(3) have loop: "update_baseline_loop b d \<alpha> [] = Inr b'"
    by (simp add: update_baseline_def)
  from assms(2) have mem: "(k, s) \<in> set b" by (rule map_of_SomeD)
  from update_baseline_loop_ok [OF loop mem] obtain s' where s': "update_stats d \<alpha> k s = Inr s'"
    by blast
  from update_baseline_loop_map_of [OF loop assms(1), of k] assms(2) s'
  have "map_of b' k = Some s'" by simp
  then show ?thesis using update_stats_Inr [OF s'] by blast
qed

lemma update_example_28:
  "update_baseline [(k, \<lparr>mean = 20, std = 5\<rparr>)] [(k, Num 100)] 0.1
     = Inr [(k, \<lparr>mean = 28, std = 11.7\<rparr>)]"
  by (simp add: update_baseline_def update_stats_def get_default_def Let_def)

lemma update_fixed_point:
  "update_baseline_repeatedly n [(k, \<lparr>mean = 20, std = s\<rparr>)] [(k, Num 20)] 0.1
     = Inr [(k, \<lparr>mean = 20, std = s * (9 / 10) ^ n\<rparr>)]"
proof (induction n arbitrary: s)
  case 0
  show ?case by simp
next
  case (Suc n)
  have "update_baseline [(k, \<lparr>mean = 20, std = s\<rparr>)] [(k, Num 20)] 0.1
     = Inr [(k, \<lparr>mean = 20, std = s * (9 / 10)\<rparr>)]"
    by (simp add: update_baseline_def update_stats_def get_default_def Let_def)
  then show ?case using Suc.IH [of "s * (9 / 10)"] by simp
qed

lemma update_baseline_loop_total:
  "\<forall>(k, s)\<in>set items. \<exists>v. as_num (get_default d k (Num (mean s))) = Inr v \<Longrightarrow>
   \<exists>b'. update_baseline_loop items d \<alpha> upd = Inr b'"
proof (induction items arbitrary: upd)
  case Nil
  show ?case by simp
next
  case (Cons item items)
  obtain key st where item: "item = (key, st)" by (cases item)
  from Cons.prems item obtain v where "as_num (get_default d key (Num (mean st))) = Inr v"
    by auto
  then obtain s0 where s0: "update_stats d \<alpha> key st = Inr s0"
    by (simp add: update_stats_def Let_def)
  from Cons.prems have "\<forall>(k, s)\<in>set items. \<exists>v. as_num (get_default d k (Num (mean s))) = Inr v"
    by simp
  from Cons.IH [OF this, of "AList.update key s0 upd"] show ?case
    using item s0 by simp
qed

text \<open>
  Claim C3.  One call of \<^verbatim>\<open>update_baseline\<close> that returns maps every feature \<open>k\<close> of the
  baseline, with statistics \<open>s\<close> and observed value \<open>v\<close> (the entry of the data for \<open>k\<close>,
  or the old mean when the data has none), to the mean \<open>(1 - \<alpha>) * mean s + \<alpha> * v\<close> and
  the deviation \<open>(1 - \<alpha>) * std s + \<alpha> * \<bar>v - mean'\<bar>\<close>, taken against the new mean; the call
  returns whenever every observed value is a number.  With \<open>\<alpha> = 0.1\<close>, mean 20 and one
  observation of 100 give mean 28, and any number of observations of 20 leave the mean
  at 20.
\<close>

theorem update_baseline_smoothing:
  "(distinct (map fst b) \<and> map_of b k = Some s \<and> update_baseline b d \<alpha> = Inr b' \<longrightarrow>
      (\<exists>v s'. as_num (get_default d k (Num (mean s))) = Inr v
         \<and> map_of b' k = Some s'
         \<and> mean s' = (1 - \<alpha>) * mean s + \<alpha> * v
         \<and> std s' = (1 - \<alpha>) * std s + \<alpha> * \<bar>v - mean s'\<bar>))
   \<and> ((\<forall>(k, s)\<in>set b. \<exists>v. as_num (get_default d k (Num (mean s))) = Inr v) \<longrightarrow>
      (\<exists>b'. update_baseline b d \<alpha> = Inr b'))
   \<and> update_baseline [(k, \<lparr>mean = 20, std = 5\<rparr>)] [(k, Num 100)] 0.1
       = Inr [(k, \<lparr>mean = 28, std = 11.7\<rparr>)]
   \<and> update_baseline_repeatedly n [(k, \<lparr>mean = 20, std = 5\<rparr>)] [(k, Num 20)] 0.1
       = Inr [(k, \<lparr>mean = 20, std = 5 * (9 / 10) ^ n\<rparr>)]"
proof (intro conjI impI)
  assume h: "distinct (map fst b) \<and> map_of b k = Some s \<and> update_baseline b d \<alpha> = Inr b'"
  then have h1: "distinct (map fst b)" and h2: "map_of b k = Some s"
    and h3: "update_baseline b d \<alpha> = Inr b'" by simp_all
  show "\<exists>v s'. as_num (get_default d k (Num (mean s))) = Inr v
         \<and> map_of b' k = Some s'
         \<and> mean s' = (1 - \<alpha>) * mean s + \<alpha> * v
         \<and> std s' = (1 - \<alpha>) * std s + \<alpha> * \<bar>v - mean s'\<bar>"
    by (rule update_baseline_entry [OF h1 h2 h3])
next
  assume "\<forall>(k, s)\<in>set b. \<exists>v. as_num (get_default d k (Num (mean s))) = Inr v"
  then show "\<exists>b'. update_baseline b d \<alpha> = Inr b'"
    unfolding update_baseline_def by (rule update_baseline_loop_total)
next
  show "update_baseline [(k, \<lparr>mean = 20, std = 5\<rparr>)] [(k, Num 100)] 0.1
       = Inr [(k, \<lparr>mean = 28, std = 11.7\<rparr>)]"
    by (rule update_example_28)
next
  show "update_baseline_repeatedly n [(k, \<lparr>mean = 20, std = 5\<rparr>)] [(k, Num 20)] 0.1
       = Inr [(k, \<lparr>mean = 20, std = 5 * (9 / 10) ^ n\<rparr>)]"
    by (rule update_fixed_point)
qed

theorem update_baseline_smoothing_witness:
  "\<exists>v s'. as_num (get_default [(''cpu_usage'', Num 100)] ''cpu_usage'' (Num 20)) = Inr v
     \<and> map_of [(''cpu_usage'', \<lparr>mean = 28, std = 11.7\<rparr>)] ''cpu_usage'' = Some s'
     \<and> mean s' = (1 - 0.1) * 20 + 0.1 * v
     \<and> std s' = (1 - 0.1) * 5 + 0.1 * \<bar>v - mean s'\<bar>"
proof -
  have h: "distinct (map fst [(''cpu_usage'', \<lparr>mean = 20, std = 5\<rparr>)])
      \<and> map_of [(''cpu_usage'', \<lparr>mean = 20, std = 5\<rparr>)] ''cpu_usage'' = Some \<lparr>mean = 20, std = 5\<rparr>
      \<and> update_baseline [(''cpu_usage'', \<lparr>mean = 20, std = 5\<rparr>)] [(''cpu_usage'', Num 100)] 0.1
          = Inr [(''cpu_usage'', \<lparr>mean = 28, std = 11.7\<rparr>)]"
    by (simp add: update_baseline_def update_stats_def get_default_def Let_def)
  from update_baseline_smoothing [of "[(''cpu_usage'', \<lparr>mean = 20, std = 5\<rparr>)]" "''cpu_usage''"
      "\<lparr>mean = 20, std = 5\<rparr>" "[(''cpu_usage'', Num 100)]" "0.1"
      "[(''cpu_usage'', \<lparr>mean = 28, std = 11.7\<rparr>)]", THEN conjunct1, THEN mp, OF h]
  show ?thesis by simp
qed

lemma deviated_Inr: "deviated b d k = Inr c \<Longrightarrow> c = relative_rule_fires b d k"
  by (auto simp: deviated_def relative_rule_fires_def reading_def getitem_def Let_def
      split: if_splits option.splits sum.splits)

lemma deviated_numeric:
  "reading d k = Some x \<Longrightarrow> deviated b d k = Inr (relative_rule_fires b d k)"
  by (auto simp: deviated_def relative_rule_fires_def reading_def getitem_def Let_def
      split: if_splits option.splits sum.splits)

lemma at_least_30_Inr:
  "at_least_30 d k = Inr c \<Longrightarrow> c = (case reading d k of None \<Rightarrow> False | Some x \<Rightarrow> x \<ge> 30)"
  by (auto simp: at_least_30_def reading_def getitem_def split: option.splits sum.splits)

lemma at_least_30_numeric:
  "reading d k = Some x \<Longrightarrow> at_least_30 d k = Inr (x \<ge> 30)"
  by (auto simp: at_least_30_def reading_def getitem_def split: option.splits sum.splits)

lemma early_alert_loop_eq:
  "early_alert_loop ks b d = sudden_anomaly_loop ks b d False"
  by (induction ks) (auto split: sum.splits)

lemma sudden_anomaly_loop_Inr:
  "sudden_anomaly_loop ks b d False = Inr r \<Longrightarrow> r = (\<exists>k\<in>set ks. relative_rule_fires b d k)"
proof (induction ks)
  case Nil
  then show ?case by simp
next
  case (Cons k ks)
  from Cons.prems obtain c where c: "deviated b d k = Inr c"
    by (auto split: sum.splits)
  then have cr: "c = relative_rule_fires b d k" by (rule deviated_Inr)
  show ?case
  proof (cases c)
    case True
    then show ?thesis using Cons.prems c cr by auto
  next
    case False
    then have "sudden_anomaly_loop ks b d False = Inr r" using Cons.prems c by simp
    then show ?thesis using Cons.IH False cr by simp
  qed
qed

lemma sudden_anomaly_loop_numeric:
  "\<forall>k\<in>set ks. reading d k \<noteq> None \<Longrightarrow>
   sudden_anomaly_loop ks b d False = Inr (\<exists>k\<in>set ks. relative_rule_fires b d k)"
proof (induction ks)
  case Nil
  show ?case by simp
next
  case (Cons k ks)
  from Cons.prems obtain x where "reading d k = Some x" by auto
  then have "deviated b d k = Inr (relative_rule_fires b d k)" by (rule deviated_numeric)
  moreover from Cons.prems have "\<forall>k\<in>set ks. reading d k \<noteq> None" by simp
  ultimately show ?case using Cons.IH by auto
qed

lemma file_event_threshold_Inr:
  "file_event_threshold d = Inr f \<Longrightarrow> f = absolute_rule_fires d"
  by (auto simp: file_event_threshold_def absolute_rule_fires_def
      dest!: at_least_30_Inr split: sum.splits if_splits)

lemma file_event_threshold_numeric:
  assumes "reading d ''modified'' \<noteq> None" "reading d ''renamed'' \<noteq> None"
    "reading d ''deleted'' \<noteq> None"
  shows "file_event_threshold d = Inr (absolute_rule_fires d)"
proof -
  from assms obtain m r x where
    "reading d ''modified'' = Some m" "reading d ''renamed'' = Some r"
    "reading d ''deleted'' = Some x" by auto
  then show ?thesis
    by (simp add: file_event_threshold_def absolute_rule_fires_def at_least_30_numeric)
qed

lemma sudden_anomaly_Inr: "sudden_anomaly b d = Inr a \<Longrightarrow> a = spec_anomalous b d"
proof -
  assume h: "sudden_anomaly b d = Inr a"
  then obtain sa f where sa: "sudden_anomaly_loop watch_keys b d False = Inr sa"
    and f: "file_event_threshold d = Inr f" and a: "a = (if f then True else sa)"
    by (auto simp: sudden_anomaly_def split: sum.splits)
  from sudden_anomaly_loop_Inr [OF sa] have "sa = (\<exists>k\<in>set watch_keys. relative_rule_fires b d k)" .
  moreover from file_event_threshold_Inr [OF f] have "f = absolute_rule_fires d" .
  ultimately show ?thesis using a by (auto simp: spec_anomalous_def watch_keys_def)
qed

lemma early_alert_fires_Inr: "early_alert_fires b d = Inr a \<Longrightarrow> a = spec_anomalous b d"
proof -
  assume h: "early_alert_fires b d = Inr a"
  then obtain r where r: "sudden_anomaly_loop watch_keys b d False = Inr r"
    and a: "if r then a = True else file_event_threshold d = Inr a"
    by (auto simp: early_alert_fires_def early_alert_loop_eq split: sum.splits if_splits)
  from sudden_anomaly_loop_Inr [OF r] have rr: "r = (\<exists>k\<in>set watch_keys. relative_rule_fires b d k)" .
  show ?thesis
  proof (cases r)
    case True
    then show ?thesis using a rr by (auto simp: spec_anomalous_def watch_keys_def)
  next
    case False
    then have "a = absolute_rule_fires d" using a file_event_threshold_Inr by simp
    then show ?thesis using False rr by (auto simp: spec_anomalous_def watch_keys_def)
  qed
qed

lemma sudden_anomaly_early:
  "sudden_anomaly b d = Inr a \<Longrightarrow> early_alert_fires b d = Inr a"
  by (auto simp: sudden_anomaly_def early_alert_fires_def early_alert_loop_eq
      dest!: sudden_anomaly_loop_Inr file_event_threshold_Inr split: sum.splits if_splits)

lemma sudden_anomaly_numeric:
  assumes "\<forall>k\<in>detector_keys. reading d k \<noteq> None"
  shows "sudden_anomaly b d = Inr (spec_anomalous b d)"
proof -
  from assms have "\<forall>k\<in>set watch_keys. reading d k \<noteq> None"
    by (simp add: watch_keys_def detector_keys_def)
  then have l: "sudden_anomaly_loop watch_keys b d False
      = Inr (\<exists>k\<in>set watch_keys. relative_rule_fires b d k)"
    by (rule sudden_anomaly_loop_numeric)
  from assms have f: "file_event_threshold d = Inr (absolute_rule_fires d)"
    by (intro file_event_threshold_numeric) (simp_all add: detector_keys_def)
  show ?thesis
    using l f by (auto simp: sudden_anomaly_def spec_anomalous_def watch_keys_def)
qed

lemma early_alert_fires_numeric:
  assumes "\<forall>k\<in>detector_keys. reading d k \<noteq> None"
  shows "early_alert_fires b d = Inr (spec_anomalous b d)"
  using sudden_anomaly_early [OF sudden_anomaly_numeric [OF assms]] .

lemma collect_system_data_frame:
  "snd (collect_system_data st p) = st\<lparr>file_monitor_handler_global :=
      (case file_monitor_handler_global st of
         None \<Rightarrow> None | Some handler \<Rightarrow> Some FileMonitorHandler_init)\<rparr>"
  by (simp add: collect_system_data_def Let_def get_file_event_counts_def
      FileMonitorHandler_init_def split: option.splits)

lemma trigger_response_baseline [simp]:
  "baseline_stats (trigger_response d st) = baseline_stats st"
  by (simp add: trigger_response_def notify_clients_def Let_def)

lemma trigger_response_flag [simp]:
  "response_triggered_flag (trigger_response d st)"
  by (simp add: trigger_response_def notify_clients_def Let_def)

lemma trigger_response_set:
  "response_triggered_flag st \<Longrightarrow> trigger_response d st = st"
  by (simp add: trigger_response_def)

lemma trigger_response_twice:
  "trigger_response d' (trigger_response d st) = trigger_response d st"
  by (rule trigger_response_set) simp

lemma collect_and_predict_Inr:
  assumes h: "collect_and_predict st p = Inr (out, st')"
  shows "\<exists>a vs updated.
     sudden_anomaly (baseline_stats st) (fst (collect_system_data st p)) = Inr a
     \<and> early_alert_fires (baseline_stats st) (fst (collect_system_data st p)) = Inr a
     \<and> update_baseline (baseline_stats st) (with_response (fst (collect_system_data st p)) a) 0.1
         = Inr updated
     \<and> getitems (with_response (fst (collect_system_data st p)) a) feature_keys = Inr vs
     \<and> out = setitem (with_response (fst (collect_system_data st p)) a) ''features''
               (Dict (zip feature_keys vs))
     \<and> st' = (if a then trigger_response (fst (collect_system_data st p))
                        (snd (collect_system_data st p))
              else snd (collect_system_data st p))\<lparr>baseline_stats := updated\<rparr>"
proof -
  obtain data st0 where cs: "collect_system_data st p = (data, st0)"
    by (cases "collect_system_data st p")
  have b0: "baseline_stats st0 = baseline_stats st"
    using collect_system_data_frame [of st p] cs by simp
  from h cs obtain st1 where e: "check_and_trigger_early_alert data st0 = Inr st1"
    by (auto simp: collect_and_predict_def split: sum.splits)
  then obtain f where f: "early_alert_fires (baseline_stats st) data = Inr f"
    and st1: "st1 = (if f then trigger_response data st0 else st0)"
    by (auto simp: check_and_trigger_early_alert_def b0 split: sum.splits)
  have b1: "baseline_stats st1 = baseline_stats st" using st1 b0 by simp
  from h cs e obtain a where a: "sudden_anomaly (baseline_stats st) data = Inr a"
    by (auto simp: collect_and_predict_def b1 split: sum.splits)
  have fa: "f = a" using sudden_anomaly_early [OF a] f by simp
  define st2 where "st2 = (if a then trigger_response (with_detection data a) st1 else st1)"
  have st2: "st2 = st1"
    using st1 fa by (simp add: st2_def trigger_response_twice)
  have b2: "baseline_stats st2 = baseline_stats st" using st2 b1 by simp
  from h cs e a obtain features where "getitems data feature_keys = Inr features"
    by (auto simp: collect_and_predict_def b1 split: sum.splits)
  with h cs e a have h2:
    "(case update_baseline (baseline_stats st) (with_response data a) 0.1 of
        Inl e \<Rightarrow> Inl e
      | Inr updated \<Rightarrow>
          (case getitems (with_response data a) feature_keys of
             Inl e \<Rightarrow> Inl e
           | Inr vs \<Rightarrow>
               Inr (setitem (with_response data a) ''features'' (Dict (zip feature_keys vs)),
                    st2\<lparr>baseline_stats := updated\<rparr>))) = Inr (out, st')"
    unfolding collect_and_predict_def
    by (cases a) (simp_all add: b1 Let_def st2_def with_response_def with_detection_def cong: sum.case_cong)
  then obtain updated vs where
    u: "update_baseline (baseline_stats st) (with_response data a) 0.1 = Inr updated"
    and g: "getitems (with_response data a) feature_keys = Inr vs"
    and o: "out = setitem (with_response data a) ''features'' (Dict (zip feature_keys vs))"
    and s: "st' = st2\<lparr>baseline_stats := updated\<rparr>"
    by (auto split: sum.splits)
  show ?thesis
    using a f fa u g o s st2 st1 cs by auto
qed

lemma map_of_setitem: "map_of (setitem d k v) = (map_of d)(k \<mapsto> v)"
  by (simp add: setitem_def update_conv')

lemma map_of_with_response:
  "k \<notin> {''ml_detection'', ''state'', ''ml_model_dedicated'', ''response_triggered''} \<Longrightarrow>
   map_of (with_response d a) k = map_of d k"
  by (simp add: with_response_def with_detection_def map_of_setitem)

lemma with_response_detection:
  "map_of (with_response d a) ''ml_detection'' = Some (Num (if a then 1 else 0))
   \<and> map_of (with_response d a) ''state''
       = Some (Str (if a then ''ransomware detected'' else ''normal''))"
  by (simp add: with_response_def with_detection_def map_of_setitem)

lemma cycle_detection_fields:
  assumes "out = setitem (with_response d a) ''features'' f"
  shows "map_of out ''ml_detection'' = Some (Num (if a then 1 else 0))
   \<and> map_of out ''state'' = Some (Str (if a then ''ransomware detected'' else ''normal''))"
  using with_response_detection [of d a] assms by (simp add: map_of_setitem)

lemma update_baseline_loop_cong:
  "\<forall>(k, s)\<in>set items. map_of d1 k = map_of d2 k \<Longrightarrow>
   update_baseline_loop items d1 \<alpha> upd = update_baseline_loop items d2 \<alpha> upd"
proof (induction items arbitrary: upd)
  case Nil
  show ?case by simp
next
  case (Cons item items)
  obtain key st where item: "item = (key, st)" by (cases item)
  from Cons.prems item have "map_of d1 key = map_of d2 key" by simp
  then have u: "update_stats d1 \<alpha> key st = update_stats d2 \<alpha> key st"
    by (simp add: update_stats_def get_default_def)
  from Cons.prems have "\<forall>(k, s)\<in>set items. map_of d1 k = map_of d2 k" by simp
  then show ?case using Cons.IH item u by (simp split: sum.splits)
qed

lemma tracked_not_annotation:
  "k \<in> fst ` set baseline_stats_init \<Longrightarrow>
   k \<notin> {''ml_detection'', ''state'', ''ml_model_dedicated'', ''response_triggered''}"
  by (auto simp: baseline_stats_init_def)

lemma update_baseline_with_response:
  assumes "fst ` set b \<subseteq> fst ` set baseline_stats_init"
  shows "update_baseline b (with_response d a) \<alpha> = update_baseline b d \<alpha>"
proof -
  have "\<forall>(k, s)\<in>set b. map_of (with_response d a) k = map_of d k"
  proof (clarify)
    fix k s assume "(k, s) \<in> set b"
    then have "k \<in> fst ` set baseline_stats_init" using assms by force
    then show "map_of (with_response d a) k = map_of d k"
      by (intro map_of_with_response tracked_not_annotation)
  qed
  then show ?thesis unfolding update_baseline_def by (rule update_baseline_loop_cong)
qed

text \<open>
  Claim C1.  Whenever the detector returns a classification, it is anomalous exactly when
  the relative-deviation rule fires for one of memory_usage, disk_usage, modified and
  entropy_alerts (features whose baseline mean is not positive are skipped) or one of
  modified, renamed and deleted is at least 30; it returns one whenever the six readings
  are numbers.  A cycle that completes writes detection 1 and state
  \<open>ransomware detected\<close> in that case, and detection 0 and state \<open>normal\<close> otherwise.
\<close>

theorem detector_classification:
  "(sudden_anomaly b d = Inr a \<longrightarrow> a = spec_anomalous b d)
   \<and> ((\<forall>k\<in>detector_keys. reading d k \<noteq> None) \<longrightarrow>
        sudden_anomaly b d = Inr (spec_anomalous b d))
   \<and> (collect_and_predict st p = Inr (out, st') \<longrightarrow>
        map_of out ''ml_detection''
          = Some (Num (if spec_anomalous (baseline_stats st) (fst (collect_system_data st p))
                       then 1 else 0))
        \<and> map_of out ''state''
          = Some (Str (if spec_anomalous (baseline_stats st) (fst (collect_system_data st p))
                       then ''ransomware detected'' else ''normal'')))"
proof (intro conjI impI)
  assume "sudden_anomaly b d = Inr a"
  then show "a = spec_anomalous b d" by (rule sudden_anomaly_Inr)
next
  assume "\<forall>k\<in>detector_keys. reading d k \<noteq> None"
  then show "sudden_anomaly b d = Inr (spec_anomalous b d)" by (rule sudden_anomaly_numeric)
next
  assume h: "collect_and_predict st p = Inr (out, st')"
  from collect_and_predict_Inr [OF h] obtain a' vs where
    a: "sudden_anomaly (baseline_stats st) (fst (collect_system_data st p)) = Inr a'"
    and o: "out = setitem (with_response (fst (collect_system_data st p)) a') ''features''
               (Dict (zip feature_keys vs))"
    by blast
  have e: "a' = spec_anomalous (baseline_stats st) (fst (collect_system_data st p))"
    using a by (rule sudden_anomaly_Inr)
  from cycle_detection_fields [OF o] e
  show "map_of out ''ml_detection''
          = Some (Num (if spec_anomalous (baseline_stats st) (fst (collect_system_data st p))
                       then 1 else 0))"
    and "map_of out ''state''
          = Some (Str (if spec_anomalous (baseline_stats st) (fst (collect_system_data st p))
                       then ''ransomware detected'' else ''normal''))"
    by simp_all
qed

theorem detector_classification_witness:
  "\<exists>out st'. collect_and_predict state_running memory_spike_probes = Inr (out, st')
     \<and> map_of out ''ml_detection'' = Some (Num 1)
     \<and> map_of out ''state'' = Some (Str ''ransomware detected'')"
proof -
  have "case collect_and_predict state_running memory_spike_probes of
          Inl e \<Rightarrow> False | Inr r \<Rightarrow> True"
    by code_simp
  then obtain out st' where
    r: "collect_and_predict state_running memory_spike_probes = Inr (out, st')"
    by (cases "collect_and_predict state_running memory_spike_probes") auto
  have sp: "spec_anomalous (baseline_stats state_running)
      (fst (collect_system_data state_running memory_spike_probes))"
    by code_simp
  from detector_classification [of "baseline_stats state_running"
      "fst (collect_system_data state_running memory_spike_probes)" True
      state_running memory_spike_probes out st', THEN conjunct2, THEN conjunct2, THEN mp, OF r]
  have "map_of out ''ml_detection'' = Some (Num 1)
     \<and> map_of out ''state'' = Some (Str ''ransomware detected'')"
    using sp by simp
  then show ?thesis using r by blast
qed

text \<open>
  Claim C7.  In every cycle that completes, whatever the detector decided, the new
  baseline is the result of one \<^verbatim>\<open>update_baseline\<close> step with \<open>\<alpha> = 0.1\<close> on the old
  baseline and the data of the cycle, and the detection written into the data is the one
  computed against the old baseline.  When the baseline tracks only the seeded features,
  the fields the detector added to the data play no part in the update.
\<close>

theorem baseline_updated_after_detection:
  "(collect_and_predict st p = Inr (out, st') \<longrightarrow>
      (\<exists>a. sudden_anomaly (baseline_stats st) (fst (collect_system_data st p)) = Inr a
         \<and> map_of out ''ml_detection'' = Some (Num (if a then 1 else 0))
         \<and> update_baseline (baseline_stats st)
              (with_response (fst (collect_system_data st p)) a) 0.1
             = Inr (baseline_stats st')))
   \<and> (collect_and_predict st p = Inr (out, st')
        \<and> fst ` set (baseline_stats st) \<subseteq> fst ` set baseline_stats_init \<longrightarrow>
      update_baseline (baseline_stats st) (fst (collect_system_data st p)) 0.1
        = Inr (baseline_stats st'))"
proof -
  have main: "\<exists>a. sudden_anomaly (baseline_stats st) (fst (collect_system_data st p)) = Inr a
         \<and> map_of out ''ml_detection'' = Some (Num (if a then 1 else 0))
         \<and> update_baseline (baseline_stats st)
              (with_response (fst (collect_system_data st p)) a) 0.1
             = Inr (baseline_stats st')"
    if h: "collect_and_predict st p = Inr (out, st')"
  proof -
    from collect_and_predict_Inr [OF h] obtain a vs updated where
      a: "sudden_anomaly (baseline_stats st) (fst (collect_system_data st p)) = Inr a"
      and u: "update_baseline (baseline_stats st)
                (with_response (fst (collect_system_data st p)) a) 0.1 = Inr updated"
      and o: "out = setitem (with_response (fst (collect_system_data st p)) a) ''features''
               (Dict (zip feature_keys vs))"
      and s: "st' = (if a then trigger_response (fst (collect_system_data st p))
                        (snd (collect_system_data st p))
              else snd (collect_system_data st p))\<lparr>baseline_stats := updated\<rparr>"
      by blast
    have "baseline_stats st' = updated" using s by simp
    then show ?thesis using a u cycle_detection_fields [OF o] by auto
  qed
  show ?thesis
  proof (intro conjI impI)
    assume "collect_and_predict st p = Inr (out, st')"
    then show "\<exists>a. sudden_anomaly (baseline_stats st) (fst (collect_system_data st p)) = Inr a
         \<and> map_of out ''ml_detection'' = Some (Num (if a then 1 else 0))
         \<and> update_baseline (baseline_stats st)
              (with_response (fst (collect_system_data st p)) a) 0.1
             = Inr (baseline_stats st')"
      by (rule main)
  next
    assume h: "collect_and_predict st p = Inr (out, st')
        \<and> fst ` set (baseline_stats st) \<subseteq> fst ` set baseline_stats_init"
    then obtain a where "update_baseline (baseline_stats st)
              (with_response (fst (collect_system_data st p)) a) 0.1
             = Inr (baseline_stats st')"
      using main by blast
    then show "update_baseline (baseline_stats st) (fst (collect_system_data st p)) 0.1
        = Inr (baseline_stats st')"
      using update_baseline_with_response [of "baseline_stats st"] h by simp
  qed
qed

theorem baseline_updated_after_detection_witness:
  "(\<exists>out st'. collect_and_predict state_running steady_probes = Inr (out, st')
      \<and> map_of out ''ml_detection'' = Some (Num 0)
      \<and> update_baseline (baseline_stats state_running)
           (fst (collect_system_data state_running steady_probes)) 0.1
          = Inr (baseline_stats st'))
   \<and> (\<exists>out st'. collect_and_predict state_running memory_spike_probes = Inr (out, st')
      \<and> map_of out ''ml_detection'' = Some (Num 1)
      \<and> update_baseline (baseline_stats state_running)
           (fst (collect_system_data state_running memory_spike_probes)) 0.1
          = Inr (baseline_stats st'))"
proof -
  have keys: "fst ` set (baseline_stats state_running) \<subseteq> fst ` set baseline_stats_init"
    by (simp add: state_running_def state_init_def)
  have "case collect_and_predict state_running steady_probes of
          Inl e \<Rightarrow> False | Inr r \<Rightarrow> True"
    by code_simp
  then obtain out1 st1 where
    r1: "collect_and_predict state_running steady_probes = Inr (out1, st1)"
    by (cases "collect_and_predict state_running steady_probes") auto
  have n1: "sudden_anomaly (baseline_stats state_running)
      (fst (collect_system_data state_running steady_probes)) = Inr False"
    by code_simp
  note t1 = baseline_updated_after_detection [of state_running steady_probes out1 st1]
  from t1 [THEN conjunct1, THEN mp, OF r1] n1
  have d1: "map_of out1 ''ml_detection'' = Some (Num 0)" by auto
  from t1 [THEN conjunct2, THEN mp, OF conjI [OF r1 keys]]
  have u1: "update_baseline (baseline_stats state_running)
           (fst (collect_system_data state_running steady_probes)) 0.1
          = Inr (baseline_stats st1)" .
  have "case collect_and_predict state_running memory_spike_probes of
          Inl e \<Rightarrow> False | Inr r \<Rightarrow> True"
    by code_simp
  then obtain out2 st2 where
    r2: "collect_and_predict state_running memory_spike_probes = Inr (out2, st2)"
    by (cases "collect_and_predict state_running memory_spike_probes") auto
  have n2: "sudden_anomaly (baseline_stats state_running)
      (fst (collect_system_data state_running memory_spike_probes)) = Inr True"
    by code_simp
  note t2 = baseline_updated_after_detection [of state_running memory_spike_probes out2 st2]
  from t2 [THEN conjunct1, THEN mp, OF r2] n2
  have d2: "map_of out2 ''ml_detection'' = Some (Num 1)" by auto
  from t2 [THEN conjunct2, THEN mp, OF conjI [OF r2 keys]]
  have u2: "update_baseline (baseline_stats state_running)
           (fst (collect_system_data state_running memory_spike_probes)) 0.1
          = Inr (baseline_stats st2)" .
  show ?thesis using r1 d1 u1 r2 d2 u2 by blast
qed

lemma check_and_trigger_early_alert_Inr:
  assumes "check_and_trigger_early_alert d st = Inr st1"
  shows "\<exists>a. early_alert_fires (baseline_stats st) d = Inr a
     \<and> st1 = (if a then trigger_response d st else st)"
proof (cases "early_alert_fires (baseline_stats st) d")
  case (Inl e)
  then show ?thesis using assms by (simp add: check_and_trigger_early_alert_def)
next
  case (Inr a)
  then have "st1 = (if a then trigger_response d st else st)"
    using assms by (simp add: check_and_trigger_early_alert_def)
  then show ?thesis using Inr by blast
qed

text \<open>
  Claim C8.  Whenever the main detector classifies given data against a given baseline,
  the early-alert check on the same data and baseline calls \<^verbatim>\<open>trigger_response\<close>
  exactly when that classification is anomalous; for data whose six readings are numbers
  the two decisions are the same result, namely that of the relative-deviation rule
  (0.85) and the absolute file-event rule (30).  The early check leaves the baseline as
  it is, so the main detection of the cycle is what it would be without it.
\<close>

theorem early_alert_agrees_with_detector:
  "(sudden_anomaly b d = Inr a \<longrightarrow> early_alert_fires b d = Inr a)
   \<and> ((\<forall>k\<in>detector_keys. reading d k \<noteq> None) \<longrightarrow>
        early_alert_fires b d = sudden_anomaly b d
        \<and> early_alert_fires b d = Inr (spec_anomalous b d))
   \<and> (check_and_trigger_early_alert d st = Inr st1 \<longrightarrow>
        (\<exists>f. early_alert_fires (baseline_stats st) d = Inr f
           \<and> st1 = (if f then trigger_response d st else st))
        \<and> sudden_anomaly (baseline_stats st1) d = sudden_anomaly (baseline_stats st) d)
   \<and> (collect_and_predict st p = Inr (out, st') \<longrightarrow>
        (\<exists>c. early_alert_fires (baseline_stats st) (fst (collect_system_data st p)) = Inr c
           \<and> sudden_anomaly (baseline_stats st) (fst (collect_system_data st p)) = Inr c
           \<and> map_of out ''ml_detection'' = Some (Num (if c then 1 else 0))))"
proof (intro conjI impI)
  assume "sudden_anomaly b d = Inr a"
  then show "early_alert_fires b d = Inr a" by (rule sudden_anomaly_early)
next
  assume n: "\<forall>k\<in>detector_keys. reading d k \<noteq> None"
  show "early_alert_fires b d = sudden_anomaly b d"
    using early_alert_fires_numeric [OF n] sudden_anomaly_numeric [OF n] by simp
  show "early_alert_fires b d = Inr (spec_anomalous b d)"
    using n by (rule early_alert_fires_numeric)
next
  assume h: "check_and_trigger_early_alert d st = Inr st1"
  show "\<exists>f. early_alert_fires (baseline_stats st) d = Inr f
           \<and> st1 = (if f then trigger_response d st else st)"
    using h by (rule check_and_trigger_early_alert_Inr)
  then obtain f where "st1 = (if f then trigger_response d st else st)" by blast
  then have "baseline_stats st1 = baseline_stats st" by simp
  then show "sudden_anomaly (baseline_stats st1) d = sudden_anomaly (baseline_stats st) d"
    by simp
next
  assume h: "collect_and_predict st p = Inr (out, st')"
  from collect_and_predict_Inr [OF h] obtain c vs where
    a: "sudden_anomaly (baseline_stats st) (fst (collect_system_data st p)) = Inr c"
    and f: "early_alert_fires (baseline_stats st) (fst (collect_system_data st p)) = Inr c"
    and o: "out = setitem (with_response (fst (collect_system_data st p)) c) ''features''
               (Dict (zip feature_keys vs))"
    by blast
  show "\<exists>c. early_alert_fires (baseline_stats st) (fst (collect_system_data st p)) = Inr c
           \<and> sudden_anomaly (baseline_stats st) (fst (collect_system_data st p)) = Inr c
           \<and> map_of out ''ml_detection'' = Some (Num (if c then 1 else 0))"
    using a f cycle_detection_fields [OF o, THEN conjunct1] by (intro exI [of _ c]) simp
qed

theorem early_alert_agrees_with_detector_witness:
  "early_alert_fires baseline_stats_init
      (fst (collect_system_data state_running memory_spike_probes)) = Inr True
   \<and> early_alert_fires baseline_stats_init
      (fst (collect_system_data state_running steady_probes)) = Inr False"
proof -
  have s1: "sudden_anomaly baseline_stats_init
      (fst (collect_system_data state_running memory_spike_probes)) = Inr True"
    by code_simp
  have s2: "sudden_anomaly baseline_stats_init
      (fst (collect_system_data state_running steady_probes)) = Inr False"
    by code_simp
  from early_alert_agrees_with_detector [of baseline_stats_init
      "fst (collect_system_data state_running memory_spike_probes)" True,
      THEN conjunct1, THEN mp, OF s1]
  have a: "early_alert_fires baseline_stats_init
      (fst (collect_system_data state_running memory_spike_probes)) = Inr True" .
  from early_alert_agrees_with_detector [of baseline_stats_init
      "fst (collect_system_data state_running steady_probes)" False,
      THEN conjunct1, THEN mp, OF s2]
  have b: "early_alert_fires baseline_stats_init
      (fst (collect_system_data state_running steady_probes)) = Inr False" .
  show ?thesis using a b by (rule conjI)
qed

lemma send_loop_eq:
  "send_loop clients m raises t out
     = out @ map (\<lambda>c. (t, c, m)) (filter (\<lambda>c. \<not> raises c) clients)"
  by (induction clients arbitrary: out) simp_all

lemma getitems_Inr:
  "getitems d ks = Inr vs \<Longrightarrow> vs = map (\<lambda>k. the (map_of d k)) ks \<and> (\<forall>k\<in>set ks. map_of d k \<noteq> None)"
proof (induction ks arbitrary: vs)
  case Nil
  then show ?case by simp
next
  case (Cons k ks)
  from Cons.prems obtain v vs' where v: "getitem d k = Inr v" and g: "getitems d ks = Inr vs'"
    and vs: "vs = v # vs'"
    by (auto split: sum.splits)
  from v have "map_of d k = Some v" by (simp add: getitem_def split: option.splits)
  then show ?case using Cons.IH [OF g] vs by simp
qed

lemma map_of_zip_getitems:
  assumes "getitems d ks = Inr vs" "k \<in> set ks"
  shows "map_of (zip ks vs) k = map_of d k"
proof -
  from getitems_Inr [OF assms(1)] have vs: "vs = map (\<lambda>k. the (map_of d k)) ks"
    and ne: "map_of d k \<noteq> None" using assms(2) by auto
  have "map_of (zip ks (map (\<lambda>k. the (map_of d k)) ks)) k = Some (the (map_of d k))"
    using assms(2) by (simp add: map_of_zip_map)
  then show ?thesis using vs ne by auto
qed

lemma feature_not_annotation:
  "k \<in> set feature_keys \<Longrightarrow>
   k \<notin> {''ml_detection'', ''state'', ''ml_model_dedicated'', ''response_triggered''}"
  by (auto simp: feature_keys_def)

lemma cycle_features:
  assumes g: "getitems (with_response d a) feature_keys = Inr vs"
    and o: "out = setitem (with_response d a) ''features'' (Dict (zip feature_keys vs))"
  shows "getitem out ''features'' = Inr (Dict (zip feature_keys vs))"
    and "map fst (zip feature_keys vs) = feature_keys"
    and "\<forall>k\<in>set feature_keys. map_of (zip feature_keys vs) k = map_of d k"
proof -
  show "getitem out ''features'' = Inr (Dict (zip feature_keys vs))"
    using o by (simp add: getitem_def map_of_setitem)
  from getitems_Inr [OF g] have "length vs = length feature_keys" by simp
  then show "map fst (zip feature_keys vs) = feature_keys" by simp
  show "\<forall>k\<in>set feature_keys. map_of (zip feature_keys vs) k = map_of d k"
  proof
    fix k assume k: "k \<in> set feature_keys"
    have "map_of (zip feature_keys vs) k = map_of (with_response d a) k"
      using g k by (rule map_of_zip_getitems)
    also have "\<dots> = map_of d k"
      using k by (intro map_of_with_response feature_not_annotation)
    finally show "map_of (zip feature_keys vs) k = map_of d k" .
  qed
qed

lemma trigger_response_outbox:
  "\<exists>alerts. outbox (trigger_response d st) = outbox st @ alerts
     \<and> (\<forall>m\<in>set alerts. is_alert (snd (snd m)))"
  by (auto simp: trigger_response_def notify_clients_def Let_def send_loop_eq is_alert_def
      alert_message_def)

lemma trigger_response_clients [simp]:
  "connected_clients (trigger_response d st) = connected_clients st"
  "send_raises (trigger_response d st) = send_raises st"
  "clock (trigger_response d st) = clock st"
  by (simp_all add: trigger_response_def notify_clients_def Let_def)

lemma collect_system_data_clients [simp]:
  "connected_clients (snd (collect_system_data st p)) = connected_clients st"
  "send_raises (snd (collect_system_data st p)) = send_raises st"
  "clock (snd (collect_system_data st p)) = clock st"
  "outbox (snd (collect_system_data st p)) = outbox st"
  "baseline_stats (snd (collect_system_data st p)) = baseline_stats st"
  "response_triggered_flag (snd (collect_system_data st p)) = response_triggered_flag st"
  "blocked_at (snd (collect_system_data st p)) = blocked_at st"
  "reset_timers (snd (collect_system_data st p)) = reset_timers st"
  by (simp_all add: collect_system_data_frame)

lemma cycle_state_frame:
  assumes "st1 = (if a then trigger_response d (snd (collect_system_data st p))
              else snd (collect_system_data st p))\<lparr>baseline_stats := updated\<rparr>"
  shows "connected_clients st1 = connected_clients st"
    and "send_raises st1 = send_raises st"
    and "clock st1 = clock st"
    and "\<exists>alerts. outbox st1 = outbox st @ alerts \<and> (\<forall>m\<in>set alerts. is_alert (snd (snd m)))"
proof -
  show "connected_clients st1 = connected_clients st" using assms by simp
  show "send_raises st1 = send_raises st" using assms by simp
  show "clock st1 = clock st" using assms by simp
  show "\<exists>alerts. outbox st1 = outbox st @ alerts \<and> (\<forall>m\<in>set alerts. is_alert (snd (snd m)))"
  proof (cases a)
    case True
    then have "outbox st1 = outbox (trigger_response d (snd (collect_system_data st p)))"
      using assms by simp
    then show ?thesis
      using trigger_response_outbox [of d "snd (collect_system_data st p)"] by simp
  next
    case False
    then have "outbox st1 = outbox st @ []" using assms by simp
    then show ?thesis by (intro exI [of _ "[]"]) simp
  qed
qed

lemma notify_live_tracking_Inr:
  assumes "notify_live_tracking data st = Inr st'" "getitem data ''features'' = Inr f"
  shows "outbox st' = outbox st @ map (\<lambda>c. (clock st, c, live_tracking_message f))
            (filter (\<lambda>c. \<not> send_raises st c) (connected_clients st))"
  using assms by (auto simp: notify_live_tracking_def send_loop_eq)

lemma correlation_engine_frame [simp]:
  "connected_clients (correlation_engine data st) = connected_clients st"
  "send_raises (correlation_engine data st) = send_raises st"
  "clock (correlation_engine data st) = clock st"
  "outbox (correlation_engine data st) = outbox st"
  by (simp_all add: correlation_engine_def Let_def)

text \<open>
  Claim C9.  Every iteration of the polling loop that completes, whatever the detector
  decided, hands to the event loop, for each connected client whose send does not raise,
  one message of type \<open>live_tracking\<close> after whatever alerts the cycle published; the
  client whose send raises is skipped and the others still get theirs.  The payload has
  exactly the 14 feature names as keys, each with the value the cycle collected for it.
\<close>

theorem live_tracking_every_cycle:
  "periodic_display_step st p = Inr (data, st') \<longrightarrow>
     (\<exists>feats alerts.
        outbox st' = outbox st @ alerts
          @ map (\<lambda>c. (clock st, c, live_tracking_message (Dict feats)))
              (filter (\<lambda>c. \<not> send_raises st c) (connected_clients st))
        \<and> (\<forall>m\<in>set alerts. is_alert (snd (snd m)))
        \<and> live_tracking_message (Dict feats)
            = Dict [(''type'', Str ''live_tracking''), (''data'', Dict feats)]
        \<and> map fst feats = feature_keys \<and> length feats = 14
        \<and> (\<forall>k\<in>set feature_keys.
              map_of feats k = map_of (fst (collect_system_data st p)) k))"
proof
  assume h: "periodic_display_step st p = Inr (data, st')"
  then obtain st1 where c: "collect_and_predict st p = Inr (data, st1)"
    and n: "notify_live_tracking data (correlation_engine data st1) = Inr st'"
    by (auto simp: periodic_display_step_def split: sum.splits)
  from collect_and_predict_Inr [OF c] obtain a vs updated where
    g: "getitems (with_response (fst (collect_system_data st p)) a) feature_keys = Inr vs"
    and o: "data = setitem (with_response (fst (collect_system_data st p)) a) ''features''
               (Dict (zip feature_keys vs))"
    and s: "st1 = (if a then trigger_response (fst (collect_system_data st p))
                        (snd (collect_system_data st p))
              else snd (collect_system_data st p))\<lparr>baseline_stats := updated\<rparr>"
    by blast
  note f = cycle_features [OF g o]
  note fr = cycle_state_frame [OF s]
  from fr(4) obtain alerts where al: "outbox st1 = outbox st @ alerts"
    and ia: "\<forall>m\<in>set alerts. is_alert (snd (snd m))" by blast
  have ob: "outbox st' = outbox st @ alerts
          @ map (\<lambda>c. (clock st, c, live_tracking_message (Dict (zip feature_keys vs))))
              (filter (\<lambda>c. \<not> send_raises st c) (connected_clients st))"
    using notify_live_tracking_Inr [OF n f(1)] fr(1,2,3) al by simp
  from getitems_Inr [OF g] have "length vs = length feature_keys" by simp
  then have "length (zip feature_keys vs) = length feature_keys" by simp
  moreover have "length feature_keys = 14" by (simp add: feature_keys_def)
  ultimately have len: "length (zip feature_keys vs) = 14" by simp
  show "\<exists>feats alerts.
        outbox st' = outbox st @ alerts
          @ map (\<lambda>c. (clock st, c, live_tracking_message (Dict feats)))
              (filter (\<lambda>c. \<not> send_raises st c) (connected_clients st))
        \<and> (\<forall>m\<in>set alerts. is_alert (snd (snd m)))
        \<and> live_tracking_message (Dict feats)
            = Dict [(''type'', Str ''live_tracking''), (''data'', Dict feats)]
        \<and> map fst feats = feature_keys \<and> length feats = 14
        \<and> (\<forall>k\<in>set feature_keys.
              map_of feats k = map_of (fst (collect_system_data st p)) k)"
    using ob ia f(2) f(3) len
    by (intro exI [of _ "zip feature_keys vs"] exI [of _ alerts])
       (simp add: live_tracking_message_def)
qed

theorem live_tracking_every_cycle_witness:
  "\<exists>data st' feats alerts.
     periodic_display_step state_running steady_probes = Inr (data, st')
     \<and> outbox st' = alerts @ [(0, 1, live_tracking_message (Dict feats)),
                               (0, 3, live_tracking_message (Dict feats))]
     \<and> map fst feats = feature_keys"
proof -
  have "case periodic_display_step state_running steady_probes of
          Inl e \<Rightarrow> False | Inr r \<Rightarrow> True"
    by code_simp
  then obtain data st' where
    r: "periodic_display_step state_running steady_probes = Inr (data, st')"
    by (cases "periodic_display_step state_running steady_probes") auto
  from live_tracking_every_cycle [of state_running steady_probes data st', THEN mp, OF r]
  obtain feats alerts where
    o: "outbox st' = outbox state_running @ alerts
          @ map (\<lambda>c. (clock state_running, c, live_tracking_message (Dict feats)))
              (filter (\<lambda>c. \<not> send_raises state_running c) (connected_clients state_running))"
    and k: "map fst feats = feature_keys"
    by blast
  from o have "outbox st' = alerts @ [(0, 1, live_tracking_message (Dict feats)),
                               (0, 3, live_tracking_message (Dict feats))]"
    by (simp add: state_running_def state_init_def)
  then show ?thesis using r k by blast
qed

lemma trigger_response_clear:
  "\<not> response_triggered_flag st \<Longrightarrow>
   trigger_response d st =
     st\<lparr>response_triggered_flag := True, action_blocked := True,
        blocked_at := blocked_at st @ [clock st],
        outbox := outbox st @ map (\<lambda>c. (clock st, c, alert_message d))
                    (filter (\<lambda>c. \<not> send_raises st c) (connected_clients st)),
        reset_timers := reset_timers st @ [clock st + 60]\<rparr>"
  by (simp add: trigger_response_def notify_clients_def Let_def send_loop_eq)

lemma collect_system_data_handler:
  "file_monitor_handler_global (snd (collect_system_data st p)) =
     (case file_monitor_handler_global st of
        None \<Rightarrow> None | Some handler \<Rightarrow> Some FileMonitorHandler_init)"
  by (simp add: collect_system_data_frame)

lemma trigger_response_handler [simp]:
  "file_monitor_handler_global (trigger_response d st) = file_monitor_handler_global st"
  by (simp add: trigger_response_def notify_clients_def Let_def)

lemma get_system_data_Inr:
  assumes "get_system_data st p = Inr (resp, st')"
  shows "\<exists>data. collect_and_predict st p = Inr (data, st')
     \<and> resp = [(''status'', get_default data ''state'' PyNone),
                (''ml_model_dedicated'', get_default data ''ml_model_dedicated'' PyNone),
                (''data'', Dict data)]"
proof (cases "collect_and_predict st p")
  case (Inl e)
  then show ?thesis using assms by (simp add: get_system_data_def)
next
  case (Inr r)
  obtain data st1 where r: "r = (data, st1)" by (cases r)
  then show ?thesis using assms Inr by (simp add: get_system_data_def)
qed

text \<open>
  Claim C10.  A call of the \<^verbatim>\<open>/system_data\<close> handler that returns has run a whole
  detection cycle: the file monitor, if there is one, is left with its three sets empty;
  the baseline is replaced by its one-step update on the data of the call; and when the
  data is classified as anomalous the response is triggered from this call: with the
  alert flag clear, the flag is set, the directory is blocked once, one alert goes to
  every client that can be sent to and a reset is scheduled 60 time units later; with the
  flag already set, or normal data, nothing is blocked and nothing is published.
\<close>

theorem system_data_runs_a_cycle:
  "get_system_data st p = Inr (resp, st') \<longrightarrow>
     (\<exists>a. sudden_anomaly (baseline_stats st) (fst (collect_system_data st p)) = Inr a
        \<and> map_of resp ''status''
            = Some (Str (if a then ''ransomware detected'' else ''normal''))
        \<and> file_monitor_handler_global st' =
            (case file_monitor_handler_global st of
               None \<Rightarrow> None | Some handler \<Rightarrow> Some FileMonitorHandler_init)
        \<and> update_baseline (baseline_stats st)
             (with_response (fst (collect_system_data st p)) a) 0.1
            = Inr (baseline_stats st')
        \<and> (fst ` set (baseline_stats st) \<subseteq> fst ` set baseline_stats_init \<longrightarrow>
             update_baseline (baseline_stats st) (fst (collect_system_data st p)) 0.1
               = Inr (baseline_stats st'))
        \<and> (a \<and> \<not> response_triggered_flag st \<longrightarrow>
             response_triggered_flag st' \<and> action_blocked st'
             \<and> blocked_at st' = blocked_at st @ [clock st]
             \<and> outbox st' = outbox st
                 @ map (\<lambda>c. (clock st, c, alert_message (fst (collect_system_data st p))))
                     (filter (\<lambda>c. \<not> send_raises st c) (connected_clients st))
             \<and> reset_timers st' = reset_timers st @ [clock st + 60])
        \<and> (\<not> a \<or> response_triggered_flag st \<longrightarrow>
             blocked_at st' = blocked_at st \<and> outbox st' = outbox st
             \<and> reset_timers st' = reset_timers st
             \<and> response_triggered_flag st' = response_triggered_flag st))"
proof
  assume h: "get_system_data st p = Inr (resp, st')"
  from get_system_data_Inr [OF h] obtain data where
    c: "collect_and_predict st p = Inr (data, st')"
    and resp: "resp = [(''status'', get_default data ''state'' PyNone),
                (''ml_model_dedicated'', get_default data ''ml_model_dedicated'' PyNone),
                (''data'', Dict data)]"
    by blast
  let ?d = "fst (collect_system_data st p)"
  let ?s0 = "snd (collect_system_data st p)"
  from collect_and_predict_Inr [OF c] obtain a vs updated where
    a: "sudden_anomaly (baseline_stats st) ?d = Inr a"
    and u: "update_baseline (baseline_stats st) (with_response ?d a) 0.1 = Inr updated"
    and o: "data = setitem (with_response ?d a) ''features'' (Dict (zip feature_keys vs))"
    and s: "st' = (if a then trigger_response ?d ?s0 else ?s0)\<lparr>baseline_stats := updated\<rparr>"
    by blast
  have b: "baseline_stats st' = updated" using s by simp
  have status: "map_of resp ''status''
            = Some (Str (if a then ''ransomware detected'' else ''normal''))"
    using cycle_detection_fields [OF o] resp by (simp add: get_default_def)
  have handler: "file_monitor_handler_global st' =
            (case file_monitor_handler_global st of
               None \<Rightarrow> None | Some handler \<Rightarrow> Some FileMonitorHandler_init)"
    using s collect_system_data_handler [of st p] by simp
  have u1: "update_baseline (baseline_stats st) (with_response ?d a) 0.1
            = Inr (baseline_stats st')"
    using u b by simp
  have u2: "update_baseline (baseline_stats st) ?d 0.1 = Inr (baseline_stats st')"
    if "fst ` set (baseline_stats st) \<subseteq> fst ` set baseline_stats_init"
    using u1 update_baseline_with_response [OF that, of ?d a "0.1"] by simp
  have fire: "response_triggered_flag st' \<and> action_blocked st'
             \<and> blocked_at st' = blocked_at st @ [clock st]
             \<and> outbox st' = outbox st
                 @ map (\<lambda>c. (clock st, c, alert_message ?d))
                     (filter (\<lambda>c. \<not> send_raises st c) (connected_clients st))
             \<and> reset_timers st' = reset_timers st @ [clock st + 60]"
    if t: "a \<and> \<not> response_triggered_flag st"
  proof -
    from t have nf: "\<not> response_triggered_flag ?s0" by simp
    from t s have "st' = (trigger_response ?d ?s0)\<lparr>baseline_stats := updated\<rparr>" by simp
    then show ?thesis
      by (simp add: trigger_response_clear [OF nf])
  qed
  have quiet: "blocked_at st' = blocked_at st \<and> outbox st' = outbox st
             \<and> reset_timers st' = reset_timers st
             \<and> response_triggered_flag st' = response_triggered_flag st"
    if t: "\<not> a \<or> response_triggered_flag st"
  proof (cases a)
    case False
    then show ?thesis using s by simp
  next
    case True
    then have fl: "response_triggered_flag ?s0" using t by simp
    from True s have "st' = (trigger_response ?d ?s0)\<lparr>baseline_stats := updated\<rparr>" by simp
    then show ?thesis by (simp add: trigger_response_set [OF fl])
  qed
  show "\<exists>a. sudden_anomaly (baseline_stats st) (fst (collect_system_data st p)) = Inr a
        \<and> map_of resp ''status''
            = Some (Str (if a then ''ransomware detected'' else ''normal''))
        \<and> file_monitor_handler_global st' =
            (case file_monitor_handler_global st of
               None \<Rightarrow> None | Some handler \<Rightarrow> Some FileMonitorHandler_init)
        \<and> update_baseline (baseline_stats st)
             (with_response (fst (collect_system_data st p)) a) 0.1
            = Inr (baseline_stats st')
        \<and> (fst ` set (baseline_stats st) \<subseteq> fst ` set baseline_stats_init \<longrightarrow>
             update_baseline (baseline_stats st) (fst (collect_system_data st p)) 0.1
               = Inr (baseline_stats st'))
        \<and> (a \<and> \<not> response_triggered_flag st \<longrightarrow>
             response_triggered_flag st' \<and> action_blocked st'
             \<and> blocked_at st' = blocked_at st @ [clock st]
             \<and> outbox st' = outbox st
                 @ map (\<lambda>c. (clock st, c, alert_message (fst (collect_system_data st p))))
                     (filter (\<lambda>c. \<not> send_raises st c) (connected_clients st))
             \<and> reset_timers st' = reset_timers st @ [clock st + 60])
        \<and> (\<not> a \<or> response_triggered_flag st \<longrightarrow>
             blocked_at st' = blocked_at st \<and> outbox st' = outbox st
             \<and> reset_timers st' = reset_timers st
             \<and> response_triggered_flag st' = response_triggered_flag st)"
    apply (rule exI [of _ a])
    apply (intro conjI impI)
    using a apply assumption
    using status apply assumption
    using handler apply assumption
    using u1 apply assumption
    using u2 apply blast
    using fire apply blast
    using fire apply blast
    using fire apply blast
    using fire apply blast
    using fire apply blast
    using quiet apply blast
    using quiet apply blast
    using quiet apply blast
    using quiet apply blast
    done
qed

theorem system_data_runs_a_cycle_witness:
  "\<exists>resp st'. get_system_data state_running memory_spike_probes = Inr (resp, st')
     \<and> map_of resp ''status'' = Some (Str ''ransomware detected'')
     \<and> file_monitor_handler_global st' = Some FileMonitorHandler_init
     \<and> response_triggered_flag st'
     \<and> blocked_at st' = [0]
     \<and> reset_timers st' = [60]"
proof -
  have "case get_system_data state_running memory_spike_probes of
          Inl e \<Rightarrow> False | Inr r \<Rightarrow> True"
    by code_simp
  then obtain resp st' where
    r: "get_system_data state_running memory_spike_probes = Inr (resp, st')"
    by (cases "get_system_data state_running memory_spike_probes") auto
  have n: "sudden_anomaly (baseline_stats state_running)
      (fst (collect_system_data state_running memory_spike_probes)) = Inr True"
    by code_simp
  from system_data_runs_a_cycle [of state_running memory_spike_probes resp st', THEN mp, OF r]
  obtain a where
    a: "sudden_anomaly (baseline_stats state_running)
          (fst (collect_system_data state_running memory_spike_probes)) = Inr a"
    and status: "map_of resp ''status''
            = Some (Str (if a then ''ransomware detected'' else ''normal''))"
    and handler: "file_monitor_handler_global st' =
            (case file_monitor_handler_global state_running of
               None \<Rightarrow> None | Some handler \<Rightarrow> Some FileMonitorHandler_init)"
    and fire: "a \<and> \<not> response_triggered_flag state_running \<longrightarrow>
             response_triggered_flag st' \<and> action_blocked st'
             \<and> blocked_at st' = blocked_at state_running @ [clock state_running]
             \<and> outbox st' = outbox state_running
                 @ map (\<lambda>c. (clock state_running, c,
                          alert_message (fst (collect_system_data state_running memory_spike_probes))))
                     (filter (\<lambda>c. \<not> send_raises state_running c) (connected_clients state_running))
             \<and> reset_timers st' = reset_timers state_running @ [clock state_running + 60]"
    by blast
  from a n have t: "a" by simp
  have nf: "\<not> response_triggered_flag state_running"
    by (simp add: state_running_def state_init_def)
  from fire t nf have
    f1: "response_triggered_flag st'"
    and f2: "blocked_at st' = blocked_at state_running @ [clock state_running]"
    and f3: "reset_timers st' = reset_timers state_running @ [clock state_running + 60]"
    by blast+
  have b: "blocked_at st' = [0]" using f2 by (simp add: state_running_def state_init_def)
  have rt: "reset_timers st' = [60]" using f3 by (simp add: state_running_def state_init_def)
  have hd: "file_monitor_handler_global st' = Some FileMonitorHandler_init"
    using handler by (simp add: state_running_def state_init_def)
  have st: "map_of resp ''status'' = Some (Str ''ransomware detected'')"
    using status t by simp
  show ?thesis using r st hd f1 b rt by blast
qed

lemma spaced_window:
  "sorted_wrt (\<lambda>x y. x + 60 \<le> y) ts \<Longrightarrow> in_window t ts \<le> 1"
proof (induction ts)
  case Nil
  show ?case by (simp add: in_window_def)
next
  case (Cons x xs)
  from Cons.prems have far: "\<forall>y\<in>set xs. x + 60 \<le> y"
    and rest: "sorted_wrt (\<lambda>x y. x + 60 \<le> y) xs" by simp_all
  show ?case
  proof (cases "t \<le> x \<and> x < t + 60")
    case True
    then have "\<forall>y\<in>set xs. \<not> (t \<le> y \<and> y < t + 60)" using far by fastforce
    then have "filter (\<lambda>y. t \<le> y \<and> y < t + 60) xs = []" by (simp add: filter_empty_conv)
    then show ?thesis using True by (simp add: in_window_def)
  next
    case False
    then have "in_window t (x # xs) = in_window t xs" by (auto simp: in_window_def)
    then show ?thesis using Cons.IH [OF rest] by simp
  qed
qed

lemma filter_eq_distinct:
  "distinct cs \<Longrightarrow> filter (\<lambda>c'. c' = c \<and> P c') cs = (if c \<in> set cs \<and> P c then [c] else [])"
  by (induction cs) auto

lemma is_alert_alert_message [simp]: "is_alert (alert_message d)"
  by (simp add: is_alert_def alert_message_def)

lemma alert_times_append:
  assumes "distinct cs"
  shows "map fst (filter (\<lambda>(t, c', m). c' = c \<and> is_alert m)
           (out @ map (\<lambda>c'. (now, c', alert_message d)) (filter (\<lambda>c'. \<not> r c') cs)))
     = map fst (filter (\<lambda>(t, c', m). c' = c \<and> is_alert m) out)
         @ (if c \<in> set cs \<and> \<not> r c then [now] else [])"
proof -
  have "filter (\<lambda>(t, c', m). c' = c \<and> is_alert m)
          (map (\<lambda>c'. (now, c', alert_message d)) (filter (\<lambda>c'. \<not> r c') cs))
        = map (\<lambda>c'. (now, c', alert_message d)) (filter (\<lambda>c'. c' = c \<and> \<not> r c') cs)"
    by (induction cs) auto
  then show ?thesis
    using filter_eq_distinct [OF assms, of c "\<lambda>c'. \<not> r c'"] by simp
qed

lemma debounce_inv_trigger:
  assumes "distinct cs" "debounce_inv cs r st"
  shows "debounce_inv cs r (trigger_response d st)"
proof (cases "response_triggered_flag st")
  case True
  then show ?thesis using assms(2) by (simp add: trigger_response_set)
next
  case False
  note tr = trigger_response_clear [OF False, of d]
  from assms(2) False have cs: "connected_clients st = cs" and r: "send_raises st = r"
    and past: "\<forall>x\<in>set (blocked_at st). x \<le> clock st"
    and sp: "sorted_wrt (\<lambda>x y. x + 60 \<le> y) (blocked_at st)"
    and nt: "reset_timers st = []"
    and old: "\<forall>x\<in>set (blocked_at st). x + 60 \<le> clock st"
    and al: "\<forall>c. alert_times c st = (if c \<in> set cs \<and> \<not> r c then blocked_at st else [])"
    by (simp_all add: debounce_inv_def)
  have sp': "sorted_wrt (\<lambda>x y. x + 60 \<le> y) (blocked_at st @ [clock st])"
    using sp old by (simp add: sorted_wrt_append)
  have al': "alert_times c (trigger_response d st)
      = (if c \<in> set cs \<and> \<not> r c then blocked_at st @ [clock st] else [])" for c
    using al alert_times_append [OF assms(1), of c "outbox st" "clock st" d r]
    by (simp add: tr alert_times_def cs r)
  show ?thesis
    unfolding debounce_inv_def
    using cs r past sp' nt al' by (simp add: tr)
qed

lemma alert_times_elapse [simp]: "alert_times c (elapse st) = alert_times c st"
  by (simp add: alert_times_def elapse_def Let_def)

lemma elapse_frame [simp]:
  "connected_clients (elapse st) = connected_clients st"
  "send_raises (elapse st) = send_raises st"
  "blocked_at (elapse st) = blocked_at st"
  "outbox (elapse st) = outbox st"
  "clock (elapse st) = clock st + 1"
  by (simp_all add: elapse_def Let_def)

lemma elapse_no_timer:
  "reset_timers st = [] \<Longrightarrow>
   reset_timers (elapse st) = [] \<and> response_triggered_flag (elapse st) = response_triggered_flag st"
  by (simp add: elapse_def Let_def)

lemma elapse_one_timer:
  "reset_timers st = [d] \<Longrightarrow>
   (if d \<le> clock st + 1
    then reset_timers (elapse st) = [] \<and> \<not> response_triggered_flag (elapse st)
    else reset_timers (elapse st) = [d]
         \<and> response_triggered_flag (elapse st) = response_triggered_flag st)"
  by (simp add: elapse_def Let_def)

lemma debounce_inv_elapse:
  assumes "debounce_inv cs r st"
  shows "debounce_inv cs r (elapse st)"
proof (cases "response_triggered_flag st")
  case False
  from assms False have cs: "connected_clients st = cs" and r: "send_raises st = r"
    and past: "\<forall>x\<in>set (blocked_at st). x \<le> clock st"
    and sp: "sorted_wrt (\<lambda>x y. x + 60 \<le> y) (blocked_at st)"
    and nt: "reset_timers st = []"
    and old: "\<forall>x\<in>set (blocked_at st). x + 60 \<le> clock st"
    and al: "\<forall>c. alert_times c st = (if c \<in> set cs \<and> \<not> r c then blocked_at st else [])"
    by (simp_all add: debounce_inv_def)
  from elapse_no_timer [OF nt] False have nt': "reset_timers (elapse st) = []"
    and fl': "\<not> response_triggered_flag (elapse st)" by simp_all
  have past': "\<forall>x\<in>set (blocked_at st). x \<le> clock st + 1" using past by fastforce
  have old': "\<forall>x\<in>set (blocked_at st). x + 60 \<le> clock st + 1" using old by fastforce
  show ?thesis
    unfolding debounce_inv_def
    using cs r past' sp nt' fl' old' al by simp
next
  case True
  from assms True have cs: "connected_clients st = cs" and r: "send_raises st = r"
    and past: "\<forall>x\<in>set (blocked_at st). x \<le> clock st"
    and sp: "sorted_wrt (\<lambda>x y. x + 60 \<le> y) (blocked_at st)"
    and ne: "blocked_at st \<noteq> []"
    and tm: "reset_timers st = [last (blocked_at st) + 60]"
    and fut: "clock st < last (blocked_at st) + 60"
    and al: "\<forall>c. alert_times c st = (if c \<in> set cs \<and> \<not> r c then blocked_at st else [])"
    by (simp_all add: debounce_inv_def)
  have past': "\<forall>x\<in>set (blocked_at st). x \<le> clock st + 1" using past by fastforce
  have lastmax: "\<forall>x\<in>set (blocked_at st). x \<le> last (blocked_at st)"
  proof
    fix x assume x: "x \<in> set (blocked_at st)"
    from ne obtain ys y where ys: "blocked_at st = ys @ [y]"
      by (cases "blocked_at st" rule: rev_cases) auto
    then have "\<forall>z\<in>set ys. z + 60 \<le> y" using sp by (simp add: sorted_wrt_append)
    then show "x \<le> last (blocked_at st)" using x ys by auto
  qed
  note one = elapse_one_timer [OF tm]
  show ?thesis
  proof (cases "last (blocked_at st) + 60 \<le> clock st + 1")
    case due: True
    from one due have nt': "reset_timers (elapse st) = []"
      and fl': "\<not> response_triggered_flag (elapse st)" by simp_all
    have old': "\<forall>x\<in>set (blocked_at st). x + 60 \<le> clock st + 1"
      using lastmax due by fastforce
    show ?thesis
      unfolding debounce_inv_def
      using cs r past' sp nt' fl' old' al by simp
  next
    case notdue: False
    from one notdue True have tm': "reset_timers (elapse st) = [last (blocked_at st) + 60]"
      and fl': "response_triggered_flag (elapse st)" by simp_all
    have fut': "clock st + 1 < last (blocked_at st) + 60" using notdue by simp
    show ?thesis
      unfolding debounce_inv_def
      using cs r past' sp tm' fl' fut' ne al by simp
  qed
qed

lemma debounce_inv_run:
  "distinct cs \<Longrightarrow> debounce_inv cs r st \<Longrightarrow> debounce_inv cs r (run st sigs)"
proof (induction st sigs rule: run.induct)
  case (1 st)
  then show ?case by simp
next
  case (2 st data sigs)
  then show ?case by (simp add: debounce_inv_trigger)
next
  case (3 st sigs)
  then show ?case by (simp add: debounce_inv_elapse)
qed

lemma debounce_inv_start:
  assumes "\<not> response_triggered_flag st" "reset_timers st = []" "blocked_at st = []"
    "outbox st = []"
  shows "debounce_inv (connected_clients st) (send_raises st) st"
  using assms by (simp add: debounce_inv_def alert_times_def)

text \<open>
  Claim C2.  With the alert flag set, \<^verbatim>\<open>trigger_response\<close> changes nothing: no block,
  no alert.  With the flag clear it sets the flag, blocks the directory once, hands one
  message of type \<open>alert\<close> to the event loop for every connected client that can be sent
  to, and schedules the clearing of the flag 60 time units later.  Hence, from a state
  with the flag clear and nothing pending, after any sequence of anomaly signals and
  elapsed time units every window of 60 time units holds at most one block and, for each
  client, at most one alert, and every client that can be sent to has got exactly one
  alert per block.
\<close>

theorem debounce_one_response_per_window:
  "(response_triggered_flag st \<longrightarrow> trigger_response d st = st)
   \<and> (\<not> response_triggered_flag st \<longrightarrow>
        trigger_response d st =
          st\<lparr>response_triggered_flag := True, action_blocked := True,
             blocked_at := blocked_at st @ [clock st],
             outbox := outbox st @ map (\<lambda>c. (clock st, c, alert_message d))
                         (filter (\<lambda>c. \<not> send_raises st c) (connected_clients st)),
             reset_timers := reset_timers st @ [clock st + 60]\<rparr>
        \<and> is_alert (alert_message d))
   \<and> (\<not> response_triggered_flag st0 \<and> reset_timers st0 = [] \<and> blocked_at st0 = []
        \<and> outbox st0 = [] \<and> distinct (connected_clients st0) \<longrightarrow>
        (\<forall>t. in_window t (blocked_at (run st0 sigs)) \<le> 1)
        \<and> (\<forall>t c. in_window t (alert_times c (run st0 sigs)) \<le> 1)
        \<and> (\<forall>c. c \<in> set (connected_clients st0) \<and> \<not> send_raises st0 c \<longrightarrow>
               alert_times c (run st0 sigs) = blocked_at (run st0 sigs)))"
proof (intro conjI impI)
  assume "response_triggered_flag st"
  then show "trigger_response d st = st" by (rule trigger_response_set)
next
  assume "\<not> response_triggered_flag st"
  then show "trigger_response d st =
          st\<lparr>response_triggered_flag := True, action_blocked := True,
             blocked_at := blocked_at st @ [clock st],
             outbox := outbox st @ map (\<lambda>c. (clock st, c, alert_message d))
                         (filter (\<lambda>c. \<not> send_raises st c) (connected_clients st)),
             reset_timers := reset_timers st @ [clock st + 60]\<rparr>"
    by (rule trigger_response_clear)
next
  show "is_alert (alert_message d)" by simp
next
  assume h: "\<not> response_triggered_flag st0 \<and> reset_timers st0 = [] \<and> blocked_at st0 = []
        \<and> outbox st0 = [] \<and> distinct (connected_clients st0)"
  then have start: "debounce_inv (connected_clients st0) (send_raises st0) st0"
    by (intro debounce_inv_start) simp_all
  from h have "distinct (connected_clients st0)" by simp
  then have inv: "debounce_inv (connected_clients st0) (send_raises st0) (run st0 sigs)"
    using start by (rule debounce_inv_run)
  then have sp: "sorted_wrt (\<lambda>x y. x + 60 \<le> y) (blocked_at (run st0 sigs))"
    and al: "\<forall>c. alert_times c (run st0 sigs)
        = (if c \<in> set (connected_clients st0) \<and> \<not> send_raises st0 c
           then blocked_at (run st0 sigs) else [])"
    by (simp_all add: debounce_inv_def)
  show w: "\<forall>t. in_window t (blocked_at (run st0 sigs)) \<le> 1"
    using spaced_window [OF sp] by blast
  show "\<forall>t c. in_window t (alert_times c (run st0 sigs)) \<le> 1"
  proof (intro allI)
    fix t c
    show "in_window t (alert_times c (run st0 sigs)) \<le> 1"
    proof (cases "c \<in> set (connected_clients st0) \<and> \<not> send_raises st0 c")
      case True
      from al have "alert_times c (run st0 sigs)
          = (if c \<in> set (connected_clients st0) \<and> \<not> send_raises st0 c
             then blocked_at (run st0 sigs) else [])" by (rule spec)
      then have "alert_times c (run st0 sigs) = blocked_at (run st0 sigs)" using True by simp
      then show ?thesis using w by simp
    next
      case False
      from al have "alert_times c (run st0 sigs)
          = (if c \<in> set (connected_clients st0) \<and> \<not> send_raises st0 c
             then blocked_at (run st0 sigs) else [])" by (rule spec)
      then have "alert_times c (run st0 sigs) = []" using False by simp
      then show ?thesis by (simp add: in_window_def)
    qed
  qed
  show "\<forall>c. c \<in> set (connected_clients st0) \<and> \<not> send_raises st0 c \<longrightarrow>
               alert_times c (run st0 sigs) = blocked_at (run st0 sigs)"
    using al by simp
qed

theorem debounce_one_response_per_window_witness:
  "blocked_at (run state_running debounce_signals) = [0, 60]
   \<and> in_window 0 (blocked_at (run state_running debounce_signals)) \<le> 1
   \<and> in_window 1 (blocked_at (run state_running debounce_signals)) \<le> 1
   \<and> alert_times 1 (run state_running debounce_signals) = [0, 60]
   \<and> alert_times 2 (run state_running debounce_signals) = []
   \<and> trigger_response [] (trigger_response [] state_running) = trigger_response [] state_running"
proof -
  have h: "\<not> response_triggered_flag state_running \<and> reset_timers state_running = []
      \<and> blocked_at state_running = [] \<and> outbox state_running = []
      \<and> distinct (connected_clients state_running)"
    by (simp add: state_running_def state_init_def)
  note t = debounce_one_response_per_window [of "trigger_response [] state_running" "[]"
      state_running debounce_signals]
  from t [THEN conjunct2, THEN conjunct2, THEN mp, OF h]
  have w: "\<forall>t. in_window t (blocked_at (run state_running debounce_signals)) \<le> 1"
    and a: "\<forall>c. c \<in> set (connected_clients state_running) \<and> \<not> send_raises state_running c \<longrightarrow>
               alert_times c (run state_running debounce_signals)
                 = blocked_at (run state_running debounce_signals)"
    by blast+
  have b: "blocked_at (run state_running debounce_signals) = [0, 60]"
    by code_simp
  have c1: "1 \<in> set (connected_clients state_running) \<and> \<not> send_raises state_running 1"
    by (simp add: state_running_def state_init_def)
  have a1: "alert_times 1 (run state_running debounce_signals) = [0, 60]"
    using a c1 b by simp
  have a2: "alert_times 2 (run state_running debounce_signals) = []"
    by code_simp
  have f: "response_triggered_flag (trigger_response [] state_running)" by simp
  from t [THEN conjunct1, THEN mp, OF f]
  have tw: "trigger_response [] (trigger_response [] state_running)
      = trigger_response [] state_running" .
  show ?thesis using b w a1 a2 tw by simp
qed

lemma sum_case_Inl:
  "(case x of Inl e \<Rightarrow> e = err | Inr r \<Rightarrow> False) \<Longrightarrow> x = Inl err"
  by (cases x) simp_all

text \<open>
  Claim C5, evaluated at a cycle in which every memory sample fails, and at one in which
  every CPU sample fails: the snapshot holds \<^verbatim>\<open>None\<close> for the feature (neither the
  baseline mean nor zero is substituted), and the cycle raises \<^verbatim>\<open>TypeError\<close>, in the
  early-alert check for memory and in the baseline update for CPU, so the iteration of
  the polling loop does not complete.
\<close>

theorem sampler_exhaustion_aborts_cycle:
  "map_of (fst (collect_system_data state_running memory_failing_probes)) ''memory_usage''
     = Some PyNone
   \<and> check_and_trigger_early_alert
        (fst (collect_system_data state_running memory_failing_probes))
        (snd (collect_system_data state_running memory_failing_probes)) = Inl TypeError
   \<and> collect_and_predict state_running memory_failing_probes = Inl TypeError
   \<and> periodic_display_step state_running memory_failing_probes = Inl TypeError
   \<and> map_of (fst (collect_system_data state_running
                  (steady_probes\<lparr>cpu_percent := (\<lambda>i. None)\<rparr>))) ''cpu_usage''
     = Some PyNone
   \<and> collect_and_predict state_running (steady_probes\<lparr>cpu_percent := (\<lambda>i. None)\<rparr>)
     = Inl TypeError"
proof -
  have a: "map_of (fst (collect_system_data state_running memory_failing_probes)) ''memory_usage''
     = Some PyNone"
    by code_simp
  have "case check_and_trigger_early_alert
        (fst (collect_system_data state_running memory_failing_probes))
        (snd (collect_system_data state_running memory_failing_probes)) of
          Inl e \<Rightarrow> e = TypeError | Inr r \<Rightarrow> False"
    by code_simp
  then have b: "check_and_trigger_early_alert
        (fst (collect_system_data state_running memory_failing_probes))
        (snd (collect_system_data state_running memory_failing_probes)) = Inl TypeError"
    by (rule sum_case_Inl)
  have "case collect_and_predict state_running memory_failing_probes of
          Inl e \<Rightarrow> e = TypeError | Inr r \<Rightarrow> False"
    by code_simp
  then have c: "collect_and_predict state_running memory_failing_probes = Inl TypeError"
    by (rule sum_case_Inl)
  then have d: "periodic_display_step state_running memory_failing_probes = Inl TypeError"
    by (simp add: periodic_display_step_def)
  have e: "map_of (fst (collect_system_data state_running
                  (steady_probes\<lparr>cpu_percent := (\<lambda>i. None)\<rparr>))) ''cpu_usage''
     = Some PyNone"
    by code_simp
  have "case collect_and_predict state_running (steady_probes\<lparr>cpu_percent := (\<lambda>i. None)\<rparr>) of
          Inl e \<Rightarrow> e = TypeError | Inr r \<Rightarrow> False"
    by code_simp
  then have f: "collect_and_predict state_running (steady_probes\<lparr>cpu_percent := (\<lambda>i. None)\<rparr>)
     = Inl TypeError"
    by (rule sum_case_Inl)
  show ?thesis using a b c d e f by simp
qed

end
